theory Spec2Isabelle
  imports Main "HOL-Library.Word"
begin

unbundle bit_operations_syntax

section \<open>The intel\_idle driver (drivers/idle/intel\_idle.c)\<close>

text \<open>
  The driver keeps its configuration in file-level globals and talks to the rest of the
  kernel through calls whose code is not part of this file (the cpuidle framework, the
  per-cpu allocator, the clock, the MONITOR/MWAIT instructions). The globals are a
  record that every function takes and returns; the calls into the rest of the kernel
  are appended, in program order, to the \<open>events\<close> field. Diagnostic output
  (\<open>printk\<close>, \<open>pr_debug\<close>) is not modelled.

  C \<open>int\<close> and \<open>unsigned int\<close> are \<open>32 word\<close> (read with \<open>sint\<close> where the code
  compares signed values), \<open>unsigned long\<close> and \<open>s64\<close> are \<open>64 word\<close>.
\<close>

subsection \<open>Constants\<close>

definition MWAIT_SUBSTATE_MASK :: "32 word" where
  "MWAIT_SUBSTATE_MASK = 0xf"

definition MWAIT_CSTATE_MASK :: "64 word" where
  "MWAIT_CSTATE_MASK = 0xf"

definition MWAIT_SUBSTATE_SIZE :: nat where
  "MWAIT_SUBSTATE_SIZE = 4"

definition MWAIT_MAX_NUM_CSTATES :: nat where
  "MWAIT_MAX_NUM_CSTATES = 8"

definition CPUID_MWAIT_LEAF :: "32 word" where
  "CPUID_MWAIT_LEAF = 5"

definition CPUID5_ECX_EXTENSIONS_SUPPORTED :: "32 word" where
  "CPUID5_ECX_EXTENSIONS_SUPPORTED = 0x1"

definition CPUID5_ECX_INTERRUPT_BREAK :: "32 word" where
  "CPUID5_ECX_INTERRUPT_BREAK = 0x2"

text \<open>
  The error numbers the driver returns negated. \<open>Success\<close> is the return value 0,
  \<open>Failure e\<close> is \<open>-e\<close>.
\<close>

datatype errno = EPERM | EIO | ENOMEM | EBUSY | ENODEV

datatype status = Success | Failure errno

subsection \<open>Data model\<close>

datatype enter_fn = Intel_idle

datatype cpuidle_flag = CPUIDLE_FLAG_TIME_VALID

text \<open>One row of a C-state table (\<open>struct cpuidle_state\<close>); \<open>enter = None\<close> is a NULL
  entry function.\<close>

record cpuidle_state =
  name :: string
  desc :: string
  driver_data :: "64 word"
  flags :: "cpuidle_flag list"
  exit_latency :: "32 word"
  power_usage :: "32 word"
  target_residency :: "32 word"
  enter :: "enter_fn option"

text \<open>A row with no initialiser: every field zero.\<close>

definition zero_state :: cpuidle_state where
  "zero_state = \<lparr> name = [], desc = [], driver_data = 0, flags = [],
     exit_latency = 0, power_usage = 0, target_residency = 0, enter = None \<rparr>"

text \<open>The part of \<open>struct cpuidle_device\<close> the driver writes.\<close>

record cpuidle_device =
  cpu :: nat
  state_count :: nat
  states :: "cpuidle_state list"

text \<open>What \<open>alloc_percpu\<close> hands out for each possible CPU: a zero-filled device whose
  state array has \<open>CPUIDLE_STATE_MAX\<close> (8) slots.\<close>

definition zero_device :: cpuidle_device where
  "zero_device = \<lparr> cpu = 0, state_count = 0, states = replicate 8 zero_state \<rparr>"

text \<open>The two substate policies \<open>choose_substate\<close> can point to, and the two tables
  \<open>cpuidle_state_table\<close> can point to.\<close>

datatype policy = Choose_tunable_substate | Choose_zero_substate

datatype table = Nehalem_cstates | Atom_cstates

text \<open>
  The per-cpu pointer \<open>intel_idle_cpuidle_devices\<close> together with the storage it refers
  to: NULL, a live allocation holding one device per CPU, or an allocation that has been
  given back with \<open>free_percpu\<close> (the pointer variable itself is never reset).
\<close>

datatype percpu_ptr = Null | Live "nat \<Rightarrow> cpuidle_device" | Freed

datatype clock_evt = CLOCK_EVT_NOTIFY_BROADCAST_ENTER | CLOCK_EVT_NOTIFY_BROADCAST_EXIT

text \<open>Calls that leave the file, in the order the code makes them.\<close>

datatype event =
    Cpuid "32 word"
  | Alloc_percpu
  | Free_percpu
  | Mark_tsc_unstable
  | Cpuidle_register_driver
  | Cpuidle_unregister_driver
  | Cpuidle_register_device nat
  | Cpuidle_unregister_device nat
  | Local_irq_disable
  | Local_irq_enable
  | Clockevents_notify clock_evt nat
  | Ktime_get_real
  | Stop_critical_timings
  | Start_critical_timings
  | Trace_power_start "64 word"
  | Need_resched bool
  | Monitor
  | Smp_mb
  | Mwait "64 word" "64 word"

text \<open>
  The globals of the file, followed by the two pieces of kernel state the driver acts
  on from outside: the set of cores whose device is registered with the cpuidle
  framework, and the trace of calls.
\<close>

record globals =
  max_cstate :: "32 word"
  power_policy :: "32 word"
  substates :: "32 word"
  choose_substate :: "policy option"
  lapic_timer_reliable_states :: "32 word"
  intel_idle_cpuidle_devices :: percpu_ptr
  cpuidle_state_table :: "table option"
  registered :: "nat set"
  events :: "event list"

text \<open>The globals as the C initialisers leave them at load time.\<close>

definition initial_globals :: globals where
  "initial_globals = \<lparr> max_cstate = 7, power_policy = 7, substates = 0,
     choose_substate = None, lapic_timer_reliable_states = 0,
     intel_idle_cpuidle_devices = Null, cpuidle_state_table = None,
     registered = {}, events = [] \<rparr>"

definition emit :: "event \<Rightarrow> globals \<Rightarrow> globals" where
  "emit e s = s\<lparr>events := events s @ [e]\<rparr>"

subsection \<open>Substate selection\<close>

text \<open>The expression \<open>(substates >> ((cstate) * 4)) & MWAIT_SUBSTATE_MASK\<close>, which
  both \<open>choose_tunable_substate\<close> and the device set-up evaluate.\<close>

definition num_substates_of :: "32 word \<Rightarrow> nat \<Rightarrow> 32 word" where
  "num_substates_of sub cstate = drop_bit (cstate * 4) sub AND MWAIT_SUBSTATE_MASK"

text \<open>\<open>choose_tunable_substate\<close>: the assignment \<open>power_policy &= 0xF\<close> writes the global,
  so the function returns the new globals with its result.\<close>

definition choose_tunable_substate :: "32 word \<Rightarrow> globals \<Rightarrow> 32 word \<times> globals" where
  "choose_tunable_substate cstate s =
     (let s1 = s\<lparr>power_policy := power_policy s AND 0xF\<rparr>;
          cstate1 = cstate AND 7;
          num_substates = num_substates_of (substates s1) (unat cstate1)
      in if num_substates \<le> 1 then (0, s1)
         else ((power_policy s1 + (power_policy s1 + 1) * (num_substates - 1)) div 16, s1))"

definition choose_zero_substate :: "32 word \<Rightarrow> globals \<Rightarrow> 32 word \<times> globals" where
  "choose_zero_substate cstate s = (0, s)"

subsection \<open>The C-state tables\<close>

text \<open>Both tables have \<open>MWAIT_MAX_NUM_CSTATES\<close> rows, indexed by the C-state number; the
  rows without an initialiser are zero.\<close>

definition nehalem_cstates :: "cpuidle_state list" where
  "nehalem_cstates =
    [ zero_state,
      \<lparr> name = ''NHM-C1'', desc = ''MWAIT 0x00'', driver_data = 0x00,
        flags = [CPUIDLE_FLAG_TIME_VALID], exit_latency = 3, power_usage = 1000,
        target_residency = 6, enter = Some Intel_idle \<rparr>,
      \<lparr> name = ''NHM-C3'', desc = ''MWAIT 0x10'', driver_data = 0x10,
        flags = [CPUIDLE_FLAG_TIME_VALID], exit_latency = 20, power_usage = 500,
        target_residency = 80, enter = Some Intel_idle \<rparr>,
      \<lparr> name = ''NHM-C6'', desc = ''MWAIT 0x20'', driver_data = 0x20,
        flags = [CPUIDLE_FLAG_TIME_VALID], exit_latency = 200, power_usage = 350,
        target_residency = 800, enter = Some Intel_idle \<rparr>,
      zero_state, zero_state, zero_state, zero_state ]"

definition atom_cstates :: "cpuidle_state list" where
  "atom_cstates =
    [ zero_state,
      \<lparr> name = ''ATM-C1'', desc = ''MWAIT 0x00'', driver_data = 0x00,
        flags = [CPUIDLE_FLAG_TIME_VALID], exit_latency = 1, power_usage = 1000,
        target_residency = 4, enter = Some Intel_idle \<rparr>,
      \<lparr> name = ''ATM-C2'', desc = ''MWAIT 0x10'', driver_data = 0x10,
        flags = [CPUIDLE_FLAG_TIME_VALID], exit_latency = 20, power_usage = 500,
        target_residency = 80, enter = Some Intel_idle \<rparr>,
      zero_state,
      \<lparr> name = ''ATM-C4'', desc = ''MWAIT 0x30'', driver_data = 0x30,
        flags = [CPUIDLE_FLAG_TIME_VALID], exit_latency = 100, power_usage = 250,
        target_residency = 400, enter = Some Intel_idle \<rparr>,
      zero_state,
      \<lparr> name = ''ATM-C6'', desc = ''MWAIT 0x40'', driver_data = 0x40,
        flags = [CPUIDLE_FLAG_TIME_VALID], exit_latency = 200, power_usage = 150,
        target_residency = 800, enter = None \<rparr>,
      zero_state ]"

fun table_rows :: "table \<Rightarrow> cpuidle_state list" where
  "table_rows Nehalem_cstates = nehalem_cstates"
| "table_rows Atom_cstates = atom_cstates"

subsection \<open>What the driver reads from the machine and the kernel\<close>

datatype vendor = X86_VENDOR_INTEL | X86_VENDOR_AMD | X86_VENDOR_UNKNOWN

text \<open>\<open>boot_cpu_data\<close>, the feature bits \<open>boot_cpu_has\<close> tests, and the \<open>cpuid\<close>
  instruction (leaf to \<open>(eax, ebx, ecx, edx)\<close>).\<close>

record cpuinfo =
  x86_vendor :: vendor
  x86 :: "8 word"
  x86_model :: "8 word"
  cpuid_level :: "32 word"
  X86_FEATURE_MWAIT :: bool
  X86_FEATURE_ARAT :: bool
  X86_FEATURE_NONSTOP_TSC :: bool
  cpuid :: "32 word \<Rightarrow> 32 word \<times> 32 word \<times> 32 word \<times> 32 word"

text \<open>
  What the rest of the kernel decides during set-up: the online CPUs in the order
  \<open>for_each_online_cpu\<close> visits them, whether \<open>alloc_percpu\<close> succeeds, the CPUs for
  which \<open>cpuidle_register_device\<close> reports an error, and what
  \<open>cpuidle_register_driver\<close> returns.
\<close>

record kernel_env =
  online_cpus :: "nat list"
  alloc_percpu_ok :: bool
  register_device_fails :: "nat \<Rightarrow> bool"
  register_driver_status :: status

text \<open>
  What one call of \<open>intel_idle\<close> observes: whether the file is built as a module, the
  CPU it runs on, the two values \<open>need_resched()\<close> returns (first check and re-check),
  the two values \<open>ktime_get_real()\<close> returns, and the clock arithmetic of
  \<open>linux/ktime.h\<close>, which the driver only calls.
\<close>

record idle_env =
  built_as_module :: bool
  smp_processor_id :: nat
  need_resched_first :: bool
  need_resched_second :: bool
  kt_before :: "64 word"
  kt_after :: "64 word"
  ktime_sub :: "64 word \<Rightarrow> 64 word \<Rightarrow> 64 word"
  ktime_to_us :: "64 word \<Rightarrow> 64 word"

text \<open>What the C code would do where the model stops: a call through a NULL function
  pointer, a read through a NULL table pointer, and an access to per-cpu storage that is
  not allocated or has been freed.\<close>

datatype fault =
    Null_function_call
  | Null_table_read
  | Percpu_null_access
  | Percpu_use_after_free
  | Percpu_double_free

subsection \<open>The idle entry\<close>

definition call_choose_substate :: "32 word \<Rightarrow> globals \<Rightarrow> fault + (32 word \<times> globals)" where
  "call_choose_substate cstate s =
     (case choose_substate s of
        None \<Rightarrow> Inl Null_function_call
      | Some Choose_tunable_substate \<Rightarrow> Inr (choose_tunable_substate cstate s)
      | Some Choose_zero_substate \<Rightarrow> Inr (choose_zero_substate cstate s))"

text \<open>The calls \<open>intel_idle\<close> makes after it has computed \<open>eax\<close>, in program order;
  \<open>unreliable\<close> is the test \<open>!(lapic_timer_reliable_states & (1 << cstate))\<close>.\<close>

definition idle_calls :: "idle_env \<Rightarrow> 64 word \<Rightarrow> 64 word \<Rightarrow> bool \<Rightarrow> event list" where
  "idle_calls env eax ecx unreliable =
     [Local_irq_disable]
     @ (if unreliable
        then [Clockevents_notify CLOCK_EVT_NOTIFY_BROADCAST_ENTER (smp_processor_id env)]
        else [])
     @ [Ktime_get_real, Stop_critical_timings]
     @ (if built_as_module env then [] else [Trace_power_start (drop_bit 4 eax + 1)])
     @ [Need_resched (need_resched_first env)]
     @ (if \<not> need_resched_first env
        then [Monitor, Smp_mb, Need_resched (need_resched_second env)]
             @ (if \<not> need_resched_second env then [Mwait eax ecx] else [])
        else [])
     @ [Start_critical_timings, Ktime_get_real, Local_irq_enable]
     @ (if unreliable
        then [Clockevents_notify CLOCK_EVT_NOTIFY_BROADCAST_EXIT (smp_processor_id env)]
        else [])"

definition intel_idle :: "idle_env \<Rightarrow> cpuidle_state \<Rightarrow> globals \<Rightarrow> fault + (32 word \<times> globals)" where
  "intel_idle env state s =
     (let ecx = 1;
          eax0 = driver_data state;
          cstate = ucast ((drop_bit MWAIT_SUBSTATE_SIZE eax0 AND MWAIT_CSTATE_MASK) + 1) :: 32 word
      in case call_choose_substate cstate s of
           Inl f \<Rightarrow> Inl f
         | Inr (sub, s1) \<Rightarrow>
             (let eax = eax0 + scast sub;
                  unreliable =
                    (lapic_timer_reliable_states s1 AND push_bit (unat cstate) 1 = 0);
                  usec_delta = ktime_to_us env (ktime_sub env (kt_after env) (kt_before env))
              in Inr (ucast usec_delta,
                      s1\<lparr>events := events s1 @ idle_calls env eax ecx unreliable\<rparr>)))"

subsection \<open>The probe\<close>

definition intel_idle_probe :: "cpuinfo \<Rightarrow> globals \<Rightarrow> status \<times> globals" where
  "intel_idle_probe hw s =
     (if max_cstate s = 0 then (Failure EPERM, s)
      else if x86_vendor hw \<noteq> X86_VENDOR_INTEL then (Failure ENODEV, s)
      else if \<not> X86_FEATURE_MWAIT hw then (Failure ENODEV, s)
      else if sint (cpuid_level hw) < sint CPUID_MWAIT_LEAF then (Failure ENODEV, s)
      else
        (case cpuid hw CPUID_MWAIT_LEAF of (eax, ebx, ecx, edx) \<Rightarrow>
          (let s1 = emit (Cpuid CPUID_MWAIT_LEAF) s in
           if ecx AND CPUID5_ECX_EXTENSIONS_SUPPORTED = 0 \<or>
              ecx AND CPUID5_ECX_INTERRUPT_BREAK = 0
           then (Failure ENODEV, s1)
           else
             (let s2 = (if substates s1 = 0 then s1\<lparr>substates := edx\<rparr> else s1);
                  s3 = (if X86_FEATURE_ARAT hw
                        then s2\<lparr>lapic_timer_reliable_states := 0xFFFFFFFF\<rparr> else s2)
              in if x86 hw \<noteq> 6 then (Failure ENODEV, s3)
                 else if x86_model hw \<in> {0x1A, 0x1E, 0x1F, 0x2E} then
                   (Success, s3\<lparr>lapic_timer_reliable_states := push_bit 1 1,
                                 cpuidle_state_table := Some Nehalem_cstates,
                                 choose_substate := Some Choose_tunable_substate\<rparr>)
                 else if x86_model hw \<in> {0x25, 0x2C} then
                   (Success, s3\<lparr>cpuidle_state_table := Some Nehalem_cstates,
                                 choose_substate := Some Choose_tunable_substate\<rparr>)
                 else if x86_model hw \<in> {0x1C, 0x26} then
                   (Success, s3\<lparr>lapic_timer_reliable_states := push_bit 2 1 OR push_bit 1 1,
                                 cpuidle_state_table := Some Atom_cstates,
                                 choose_substate := Some Choose_zero_substate\<rparr>)
                 else (Failure ENODEV, s3)))))"

subsection \<open>Per-CPU devices\<close>

text \<open>
  Modelled from the spec: \<open>cpuidle_register_device\<close> belongs to the cpuidle framework
  (drivers/cpuidle), whose code is not part of this file. The spec gives it as
  \<open>register(coreId, record) -> Result\<close>: a successful registration adds the core of the
  record to the registered cores, a failed one adds nothing.
\<close>

definition cpuidle_register_device :: "kernel_env \<Rightarrow> cpuidle_device \<Rightarrow> globals \<Rightarrow> bool \<times> globals" where
  "cpuidle_register_device k dev s =
     (let s1 = emit (Cpuidle_register_device (cpu dev)) s in
      if register_device_fails k (cpu dev) then (False, s1)
      else (True, s1\<lparr>registered := insert (cpu dev) (registered s1)\<rparr>))"

text \<open>
  Modelled from the spec: \<open>cpuidle_unregister_device\<close>, of the same framework, is given
  as \<open>unregister(coreId)\<close>: it removes the core of the record from the registered
  cores.
\<close>

definition cpuidle_unregister_device :: "cpuidle_device \<Rightarrow> globals \<Rightarrow> globals" where
  "cpuidle_unregister_device dev s =
     (emit (Cpuidle_unregister_device (cpu dev)) s)\<lparr>registered := registered s - {cpu dev}\<rparr>"

text \<open>The loop of \<open>intel_idle_cpuidle_devices_uninit\<close> over the online CPUs.\<close>

fun unregister_loop :: "(nat \<Rightarrow> cpuidle_device) \<Rightarrow> nat list \<Rightarrow> globals \<Rightarrow> globals" where
  "unregister_loop area [] s = s"
| "unregister_loop area (i # rest) s =
     unregister_loop area rest (cpuidle_unregister_device (area i) s)"

text \<open>
  \<open>intel_idle_cpuidle_devices_uninit\<close> reads the device of every online CPU through the
  per-cpu pointer and then frees the pointer, which it leaves as it is. The code has no
  check of the pointer: with a NULL or freed pointer the reads (and, for a freed
  pointer, the second \<open>free_percpu\<close>) are faults. \<open>free_percpu(NULL)\<close> itself does
  nothing.
\<close>

definition intel_idle_cpuidle_devices_uninit :: "kernel_env \<Rightarrow> globals \<Rightarrow> fault + globals" where
  "intel_idle_cpuidle_devices_uninit k s =
     (case intel_idle_cpuidle_devices s of
        Live area \<Rightarrow>
          Inr ((emit Free_percpu (unregister_loop area (online_cpus k) s))
                 \<lparr>intel_idle_cpuidle_devices := Freed\<rparr>)
      | Null \<Rightarrow>
          (if online_cpus k = [] then Inr (emit Free_percpu s) else Inl Percpu_null_access)
      | Freed \<Rightarrow>
          (if online_cpus k = [] then Inl Percpu_double_free else Inl Percpu_use_after_free))"

text \<open>
  The inner loop of \<open>intel_idle_cpuidle_devices_init\<close> over the C-states still to visit:
  \<open>break\<close> once \<open>cstate > max_cstate\<close>, \<open>continue\<close> when CPUID reports no substate or
  the table row has no entry function, otherwise copy the row to
  \<open>dev->states[dev->state_count]\<close> and count it. Entered with \<open>state_count = 1\<close> for
  the C-states 1 to 7, the index stays below the 8 slots of the array (lemma
  \<open>device_built\<close>), so the write is always inside it.
\<close>

fun cstate_loop :: "cpuinfo \<Rightarrow> nat list \<Rightarrow> cpuidle_device \<Rightarrow> globals \<Rightarrow> fault + (cpuidle_device \<times> globals)" where
  "cstate_loop hw [] dev s = Inr (dev, s)"
| "cstate_loop hw (cstate # rest) dev s =
     (if int cstate > sint (max_cstate s) then Inr (dev, s)
      else if num_substates_of (substates s) cstate = 0 then cstate_loop hw rest dev s
      else
        (case cpuidle_state_table s of
           None \<Rightarrow> Inl Null_table_read
         | Some tbl \<Rightarrow>
             if enter (table_rows tbl ! cstate) = None then cstate_loop hw rest dev s
             else
               (let s1 = (if cstate > 2 \<and> \<not> X86_FEATURE_NONSTOP_TSC hw
                          then emit Mark_tsc_unstable s else s);
                    dev1 = dev\<lparr>states := (states dev)[state_count dev := table_rows tbl ! cstate]\<rparr>;
                    dev2 = dev1\<lparr>state_count := state_count dev1 + 1\<rparr>
                in cstate_loop hw rest dev2 s1)))"

text \<open>The outer loop over the online CPUs still to visit. The device is written in
  place in the per-cpu storage.\<close>

fun cpu_loop :: "kernel_env \<Rightarrow> cpuinfo \<Rightarrow> nat list \<Rightarrow> globals \<Rightarrow> fault + (status \<times> globals)" where
  "cpu_loop k hw [] s = Inr (Success, s)"
| "cpu_loop k hw (i # rest) s =
     (case intel_idle_cpuidle_devices s of
        Null \<Rightarrow> Inl Percpu_null_access
      | Freed \<Rightarrow> Inl Percpu_use_after_free
      | Live area \<Rightarrow>
          (case cstate_loop hw [1..<MWAIT_MAX_NUM_CSTATES] ((area i)\<lparr>state_count := 1\<rparr>) s of
             Inl f \<Rightarrow> Inl f
           | Inr (dev1, s1) \<Rightarrow>
               (let dev2 = dev1\<lparr>cpu := i\<rparr>;
                    s2 = s1\<lparr>intel_idle_cpuidle_devices := Live (area(i := dev2))\<rparr>
                in case cpuidle_register_device k dev2 s2 of
                     (False, s3) \<Rightarrow>
                       (case intel_idle_cpuidle_devices_uninit k s3 of
                          Inl f \<Rightarrow> Inl f
                        | Inr s4 \<Rightarrow> Inr (Failure EIO, s4))
                   | (True, s3) \<Rightarrow> cpu_loop k hw rest s3)))"

definition intel_idle_cpuidle_devices_init :: "kernel_env \<Rightarrow> cpuinfo \<Rightarrow> globals \<Rightarrow> fault + (status \<times> globals)" where
  "intel_idle_cpuidle_devices_init k hw s =
     (let s0 = emit Alloc_percpu s in
      if \<not> alloc_percpu_ok k
      then Inr (Failure ENOMEM, s0\<lparr>intel_idle_cpuidle_devices := Null\<rparr>)
      else cpu_loop k hw (online_cpus k)
             (s0\<lparr>intel_idle_cpuidle_devices := Live (\<lambda>_. zero_device)\<rparr>))"

subsection \<open>Module entry and exit\<close>

definition intel_idle_init :: "kernel_env \<Rightarrow> cpuinfo \<Rightarrow> globals \<Rightarrow> fault + (status \<times> globals)" where
  "intel_idle_init k hw s =
     (case intel_idle_probe hw s of
        (Failure e, s1) \<Rightarrow> Inr (Failure e, s1)
      | (Success, s1) \<Rightarrow>
          (let s2 = emit Cpuidle_register_driver s1 in
           case register_driver_status k of
             Failure e \<Rightarrow> Inr (Failure e, s2)
           | Success \<Rightarrow>
               (case intel_idle_cpuidle_devices_init k hw s2 of
                  Inl f \<Rightarrow> Inl f
                | Inr (Failure e, s3) \<Rightarrow> Inr (Failure e, emit Cpuidle_unregister_driver s3)
                | Inr (Success, s3) \<Rightarrow> Inr (Success, s3))))"

definition intel_idle_exit :: "kernel_env \<Rightarrow> globals \<Rightarrow> fault + globals" where
  "intel_idle_exit k s =
     (case intel_idle_cpuidle_devices_uninit k s of
        Inl f \<Rightarrow> Inl f
      | Inr s1 \<Rightarrow> Inr (emit Cpuidle_unregister_driver s1))"

text \<open>The rows a device offers: \<open>states[1]\<close> up to \<open>states[state_count - 1]\<close> (slot 0 is
  the framework's own).\<close>

definition active_rows :: "cpuidle_device \<Rightarrow> cpuidle_state list" where
  "active_rows dev = take (state_count dev - 1) (tl (states dev))"

subsection \<open>Sample machines and configurations\<close>

text \<open>Concrete inputs on which the theorems below are evaluated. CPUID leaf 5 of the
  sample machines reports both extension bits and the substate word \<open>0x1120\<close>.\<close>

definition sample_cpuid :: "32 word \<Rightarrow> 32 word \<times> 32 word \<times> 32 word \<times> 32 word" where
  "sample_cpuid leaf = (if leaf = 5 then (0x40, 0x40, 0x3, 0x1120) else (0, 0, 0, 0))"

definition nehalem_cpu :: cpuinfo where
  "nehalem_cpu = \<lparr> x86_vendor = X86_VENDOR_INTEL, x86 = 6, x86_model = 0x1A,
     cpuid_level = 11, X86_FEATURE_MWAIT = True, X86_FEATURE_ARAT = False,
     X86_FEATURE_NONSTOP_TSC = True, cpuid = sample_cpuid \<rparr>"

definition sample_kernel :: kernel_env where
  "sample_kernel = \<lparr> online_cpus = [0, 1, 2, 3], alloc_percpu_ok = True,
     register_device_fails = (\<lambda>c. c = 2), register_driver_status = Success \<rparr>"

definition sample_idle_env :: idle_env where
  "sample_idle_env = \<lparr> built_as_module = False, smp_processor_id = 0,
     need_resched_first = True, need_resched_second = True,
     kt_before = 1000000, kt_after = 1002000,
     ktime_sub = (\<lambda>a b. a - b), ktime_to_us = (\<lambda>t. t div 1000) \<rparr>"

definition arat_nehalem_cpu :: cpuinfo where
  "arat_nehalem_cpu = nehalem_cpu\<lparr>X86_FEATURE_ARAT := True\<rparr>"

definition amd_cpu :: cpuinfo where
  "amd_cpu = nehalem_cpu\<lparr>x86_vendor := X86_VENDOR_AMD\<rparr>"




definition all_ok_kernel :: kernel_env where
  "all_ok_kernel = sample_kernel\<lparr>register_device_fails := (\<lambda>c. False)\<rparr>"

definition sample_probed :: globals where
  "sample_probed = snd (intel_idle_probe nehalem_cpu initial_globals)"

definition sample_installed :: globals where
  "sample_installed =
     snd (projr (intel_idle_cpuidle_devices_init all_ok_kernel nehalem_cpu sample_probed))"

definition waiting_idle_env :: idle_env where
  "waiting_idle_env =
     sample_idle_env\<lparr>need_resched_first := False, need_resched_second := False\<rparr>"

section \<open>Properties\<close>

subsection \<open>Word arithmetic of the substate formula\<close>

lemma num_substates_of_le: "num_substates_of sub c \<le> 15"
  unfolding num_substates_of_def MWAIT_SUBSTATE_MASK_def
  by (rule word_and_le1)

lemma and_15_le: "(pp::32 word) \<le> 15 \<Longrightarrow> pp AND 0xF = pp"
proof -
  assume "pp \<le> 15"
  then have "pp < 2 ^ 4" by unat_arith
  then have "pp AND mask 4 = pp" by (rule less_mask_eq)
  then show ?thesis by (simp add: mask_eq_exp_minus_1)
qed

lemma sint_small:
  fixes pp :: "32 word"
  assumes "0 \<le> sint pp" "sint pp \<le> 15"
  shows "pp \<le> 15" and "uint pp = sint pp"
proof -
  have "uint pp = take_bit 32 (sint pp)" by (simp add: uint_sint)
  also have "\<dots> = sint pp" using assms by (simp add: take_bit_int_eq_self)
  finally show u: "uint pp = sint pp" .
  then have "uint pp \<le> 15" using assms by simp
  then show "pp \<le> 15" by (simp add: word_le_def)
qed

lemma small_sint:
  fixes r :: "32 word"
  assumes "uint r \<le> 15"
  shows "sint r = uint r"
proof -
  have "signed_take_bit 31 (uint r) = uint r"
  proof (rule signed_take_bit_int_eq_self)
    have "0 \<le> uint r" and "(0::int) \<le> 2 ^ 31" by simp_all
    then show "- (2 ^ 31) \<le> uint r" by linarith
    show "uint r < 2 ^ 31" using assms by simp
  qed
  then show ?thesis by (simp add: sint_uint)
qed

lemma formula_word:
  fixes pp n :: "32 word"
  assumes "pp \<le> 15" "n \<le> 15" "1 < n"
  shows "uint ((pp + (pp + 1) * (n - 1)) div 16) = (uint pp + (uint pp + 1) * (uint n - 1)) div 16"
proof -
  have p: "uint pp \<le> 15" using assms(1) by (simp add: word_le_def)
  have n: "uint n \<le> 15" "1 < uint n" using assms(2,3) by (simp_all add: word_le_def word_less_def)
  have n1: "uint (n - 1) = uint n - 1" using n by (simp add: uint_sub_if' word_le_def word_less_def)
  have p1: "uint (pp + 1) = uint pp + 1" using p by (simp add: uint_plus_if')
  have b: "(uint pp + 1) * (uint n - 1) \<le> 16 * 14" using p n by (intro mult_mono) auto
  then have m: "uint ((pp + 1) * (n - 1)) = (uint pp + 1) * (uint n - 1)"
    using n1 p1 by (simp add: uint_mult_lem[THEN iffD1])
  have a: "uint (pp + (pp + 1) * (n - 1)) = uint pp + (uint pp + 1) * (uint n - 1)"
    using p b m by (simp add: uint_plus_if')
  show ?thesis by (simp add: uint_div a)
qed

lemma div_le_bound: "(x::int) \<le> 16 * k + 15 \<Longrightarrow> x div 16 \<le> k"
  by linarith

subsection \<open>Tunable substate selection\<close>

text \<open>
  Claim C4. With \<open>power_policy\<close> in [0,15] and a substate count \<open>c\<close> in [1,16] for the
  requested C-state, \<open>choose_tunable_substate\<close> returns a value in [0, c-1]: the value
  \<open>(power_policy + (power_policy+1)*(c-1)) / 16\<close> when \<open>c > 1\<close>, and 0 when \<open>c \<le> 1\<close>.
  (The count is a 4-bit field of \<open>substates\<close>, so it never exceeds 15.)
\<close>

theorem choose_tunable_substate_range:
  fixes s :: globals and cstate :: "32 word" and c pp :: int
  assumes pp: "pp = sint (power_policy s)" "0 \<le> pp" "pp \<le> 15"
    and c: "c = uint (num_substates_of (substates s) (unat (cstate AND 7)))" "1 \<le> c" "c \<le> 16"
  shows "0 \<le> sint (fst (choose_tunable_substate cstate s))
       \<and> sint (fst (choose_tunable_substate cstate s)) \<le> c - 1
       \<and> sint (fst (choose_tunable_substate cstate s)) =
           (if 1 < c then (pp + (pp + 1) * (c - 1)) div 16 else 0)"
proof -
  define n where "n = num_substates_of (substates s) (unat (cstate AND 7))"
  have ple: "power_policy s \<le> 15" and pu: "uint (power_policy s) = pp"
    using pp sint_small[of "power_policy s"] by simp_all
  have pm: "power_policy s AND 0xF = power_policy s" using ple by (rule and_15_le)
  have nle: "n \<le> 15" unfolding n_def by (rule num_substates_of_le)
  have cn: "c = uint n" using c(1) n_def by simp
  show ?thesis
  proof (cases "n \<le> 1")
    case True
    then have "uint n \<le> 1" by (simp add: word_le_def)
    then have "c = 1" using cn c(2) by simp
    moreover have "fst (choose_tunable_substate cstate s) = 0"
      using True by (simp add: choose_tunable_substate_def Let_def n_def)
    ultimately show ?thesis by simp
  next
    case False
    then have n1: "1 < n" by simp
    then have c1: "1 < c" using cn by (simp add: word_less_def)
    let ?r = "(power_policy s + (power_policy s + 1) * (n - 1)) div 16"
    have r: "fst (choose_tunable_substate cstate s) = ?r"
      using False by (simp add: choose_tunable_substate_def Let_def n_def [symmetric] pm)
    have u: "uint ?r = (pp + (pp + 1) * (c - 1)) div 16"
      using formula_word[OF ple nle n1] pu cn by simp
    have "(pp + 1) * (c - 1) \<le> 16 * (c - 1)" using pp c1 by (intro mult_right_mono) auto
    then have "pp + (pp + 1) * (c - 1) \<le> 16 * (c - 1) + 15" using pp by linarith
    then have hi: "(pp + (pp + 1) * (c - 1)) div 16 \<le> c - 1" by (rule div_le_bound)
    have "0 \<le> (pp + 1) * (c - 1)" using pp c1 by (intro mult_nonneg_nonneg) auto
    then have "0 \<le> pp + (pp + 1) * (c - 1)" using pp by linarith
    then have lo: "0 \<le> (pp + (pp + 1) * (c - 1)) div 16" by (simp add: pos_imp_zdiv_nonneg_iff)
    have "c \<le> 15" using nle cn by (simp add: word_le_def)
    then have "uint ?r \<le> 15" using u hi by linarith
    then have "sint ?r = uint ?r" by (rule small_sint)
    then show ?thesis using r u hi lo c1 by simp
  qed
qed

theorem choose_tunable_substate_range_witness:
  "(let s = initial_globals\<lparr>substates := 0x4120\<rparr> in
      sint (power_policy s) = 7 \<and>
      uint (num_substates_of (substates s) (unat ((3::32 word) AND 7))) = 4 \<and>
      sint (fst (choose_tunable_substate 3 s)) = 1)"
  using choose_tunable_substate_range
    [of 7 "initial_globals\<lparr>substates := 0x4120\<rparr>" 4 3]
  by (simp add: initial_globals_def num_substates_of_def MWAIT_SUBSTATE_MASK_def)

text \<open>
  Claim C8 (as amended). \<open>choose_tunable_substate\<close> changes no program state other than
  \<open>power_policy\<close>, which it overwrites with its low four bits; so the state is unchanged
  whenever \<open>power_policy\<close> already lies in [0,15]. Its result depends only on the low
  three bits of the requested depth, the low four bits of \<open>power_policy\<close> and the
  substate-count word.
\<close>

theorem choose_tunable_substate_effect:
  "snd (choose_tunable_substate cstate s) = s\<lparr>power_policy := power_policy s AND 0xF\<rparr>
   \<and> (power_policy s \<le> 15 \<longrightarrow> snd (choose_tunable_substate cstate s) = s)
   \<and> (cstate AND 7 = cstate' AND 7 \<and> power_policy s AND 0xF = power_policy s' AND 0xF
        \<and> substates s = substates s'
      \<longrightarrow> fst (choose_tunable_substate cstate s) = fst (choose_tunable_substate cstate' s'))"
  by (simp add: choose_tunable_substate_def Let_def and_15_le)

theorem choose_tunable_substate_effect_witness:
  "snd (choose_tunable_substate 1 initial_globals) = initial_globals
   \<and> fst (choose_tunable_substate 1 (initial_globals\<lparr>substates := 0x1120\<rparr>))
     = fst (choose_tunable_substate 9 (initial_globals\<lparr>substates := 0x1120, power_policy := 23\<rparr>))"
  using choose_tunable_substate_effect [of 1 initial_globals 1 initial_globals]
    choose_tunable_substate_effect [of 1 "initial_globals\<lparr>substates := 0x1120\<rparr>" 9
       "initial_globals\<lparr>substates := 0x1120, power_policy := 23\<rparr>"]
  by (simp add: initial_globals_def)

text \<open>
  Counterexample to C8 as stated: with \<open>power_policy = 16\<close> (the module parameter takes
  any \<open>int\<close>) one call leaves \<open>power_policy = 0\<close>.
\<close>

theorem choose_tunable_substate_writes_power_policy:
  "power_policy (snd (choose_tunable_substate 1 (initial_globals\<lparr>power_policy := 16\<rparr>))) = 0
   \<and> power_policy (initial_globals\<lparr>power_policy := 16\<rparr>) = 16"
  by (simp add: choose_tunable_substate_def Let_def initial_globals_def)

subsection \<open>The probe\<close>

lemmas probe_consts = CPUID_MWAIT_LEAF_def CPUID5_ECX_EXTENSIONS_SUPPORTED_def
  CPUID5_ECX_INTERRUPT_BREAK_def

lemmas sample_eval = intel_idle_probe_def nehalem_cpu_def initial_globals_def sample_cpuid_def
  probe_consts emit_def Let_def sample_kernel_def

text \<open>
  Claim C7. \<open>intel_idle_probe\<close> checks in this order and stops at the first failure:
  \<open>max_cstate == 0\<close> gives \<open>-EPERM\<close>; then a vendor other than Intel, missing MWAIT, a
  CPUID level below leaf 5, and a leaf 5 without both extension bits each give
  \<open>-ENODEV\<close>. A failed check leaves the globals as they were; only the last one comes
  after the CPUID query.
\<close>

theorem intel_idle_probe_admission_order:
  fixes hw :: cpuinfo and s :: globals
  defines "ecx \<equiv> fst (snd (snd (cpuid hw CPUID_MWAIT_LEAF)))"
  shows
   "(max_cstate s = 0 \<longrightarrow> intel_idle_probe hw s = (Failure EPERM, s))
  \<and> (max_cstate s \<noteq> 0 \<and> x86_vendor hw \<noteq> X86_VENDOR_INTEL
       \<longrightarrow> intel_idle_probe hw s = (Failure ENODEV, s))
  \<and> (max_cstate s \<noteq> 0 \<and> x86_vendor hw = X86_VENDOR_INTEL \<and> \<not> X86_FEATURE_MWAIT hw
       \<longrightarrow> intel_idle_probe hw s = (Failure ENODEV, s))
  \<and> (max_cstate s \<noteq> 0 \<and> x86_vendor hw = X86_VENDOR_INTEL \<and> X86_FEATURE_MWAIT hw
       \<and> sint (cpuid_level hw) < 5
       \<longrightarrow> intel_idle_probe hw s = (Failure ENODEV, s))
  \<and> (max_cstate s \<noteq> 0 \<and> x86_vendor hw = X86_VENDOR_INTEL \<and> X86_FEATURE_MWAIT hw
       \<and> 5 \<le> sint (cpuid_level hw)
       \<and> (ecx AND CPUID5_ECX_EXTENSIONS_SUPPORTED = 0 \<or> ecx AND CPUID5_ECX_INTERRUPT_BREAK = 0)
       \<longrightarrow> intel_idle_probe hw s = (Failure ENODEV, emit (Cpuid CPUID_MWAIT_LEAF) s))"
  unfolding ecx_def
  by (cases "cpuid hw CPUID_MWAIT_LEAF")
     (simp add: intel_idle_probe_def CPUID_MWAIT_LEAF_def Let_def)

theorem intel_idle_probe_admission_order_witness:
  "intel_idle_probe amd_cpu (initial_globals\<lparr>max_cstate := 0\<rparr>)
     = (Failure EPERM, initial_globals\<lparr>max_cstate := 0\<rparr>)
   \<and> intel_idle_probe (amd_cpu\<lparr>X86_FEATURE_MWAIT := False\<rparr>) initial_globals
       = (Failure ENODEV, initial_globals)
   \<and> intel_idle_probe (nehalem_cpu\<lparr>X86_FEATURE_MWAIT := False, cpuid_level := 2\<rparr>)
       initial_globals = (Failure ENODEV, initial_globals)
   \<and> intel_idle_probe (nehalem_cpu\<lparr>cpuid_level := 2, cpuid := (\<lambda>_. (0, 0, 0, 0))\<rparr>)
       initial_globals = (Failure ENODEV, initial_globals)
   \<and> intel_idle_probe (nehalem_cpu\<lparr>cpuid := (\<lambda>_. (0, 0, 1, 0))\<rparr>)
       initial_globals = (Failure ENODEV, emit (Cpuid 5) initial_globals)"
  using
    intel_idle_probe_admission_order [of "initial_globals\<lparr>max_cstate := 0\<rparr>" amd_cpu]
    intel_idle_probe_admission_order [of initial_globals "amd_cpu\<lparr>X86_FEATURE_MWAIT := False\<rparr>"]
    intel_idle_probe_admission_order
      [of initial_globals "nehalem_cpu\<lparr>X86_FEATURE_MWAIT := False, cpuid_level := 2\<rparr>"]
    intel_idle_probe_admission_order
      [of initial_globals "nehalem_cpu\<lparr>cpuid_level := 2, cpuid := (\<lambda>_. (0, 0, 0, 0))\<rparr>"]
    intel_idle_probe_admission_order
      [of initial_globals "nehalem_cpu\<lparr>cpuid := (\<lambda>_. (0, 0, 1, 0))\<rparr>"]
  by (simp add: amd_cpu_def nehalem_cpu_def initial_globals_def probe_consts)

text \<open>
  Claim C9 (as amended). On a vendor other than Intel the probe fails with \<open>-ENODEV\<close>,
  unless the driver is disabled (\<open>max_cstate == 0\<close>), where the earlier check fails it
  with \<open>-EPERM\<close>. Either way the globals are untouched, so \<open>cpuidle_state_table\<close> and
  \<open>choose_substate\<close> keep their values, and \<open>intel_idle_init\<close> returns that failure
  with no call recorded: neither \<open>cpuidle_register_driver\<close> nor
  \<open>intel_idle_cpuidle_devices_init\<close> runs.
\<close>

theorem probe_vendor_mismatch:
  assumes "x86_vendor hw \<noteq> X86_VENDOR_INTEL"
  shows "intel_idle_probe hw s
           = (if max_cstate s = 0 then Failure EPERM else Failure ENODEV, s)
       \<and> cpuidle_state_table (snd (intel_idle_probe hw s)) = cpuidle_state_table s
       \<and> choose_substate (snd (intel_idle_probe hw s)) = choose_substate s
       \<and> intel_idle_init k hw s
           = Inr (if max_cstate s = 0 then Failure EPERM else Failure ENODEV, s)"
  using assms by (simp add: intel_idle_probe_def intel_idle_init_def)

theorem probe_vendor_mismatch_witness:
  "x86_vendor amd_cpu \<noteq> X86_VENDOR_INTEL
   \<and> intel_idle_probe amd_cpu initial_globals = (Failure ENODEV, initial_globals)
   \<and> cpuidle_state_table (snd (intel_idle_probe amd_cpu initial_globals)) = None
   \<and> choose_substate (snd (intel_idle_probe amd_cpu initial_globals)) = None
   \<and> intel_idle_init sample_kernel amd_cpu initial_globals
       = Inr (Failure ENODEV, initial_globals)"
  using probe_vendor_mismatch [of amd_cpu initial_globals sample_kernel]
  by (simp add: amd_cpu_def nehalem_cpu_def initial_globals_def)

text \<open>
  Counterexample to C9 as stated: on a vendor other than Intel with \<open>max_cstate = 0\<close> the
  probe fails with \<open>-EPERM\<close>, not \<open>-ENODEV\<close>.
\<close>

theorem probe_vendor_mismatch_disabled:
  "x86_vendor amd_cpu \<noteq> X86_VENDOR_INTEL
   \<and> fst (intel_idle_probe amd_cpu (initial_globals\<lparr>max_cstate := 0\<rparr>)) = Failure EPERM
   \<and> fst (intel_idle_probe amd_cpu (initial_globals\<lparr>max_cstate := 0\<rparr>)) \<noteq> Failure ENODEV"
  by (simp add: intel_idle_probe_def initial_globals_def amd_cpu_def nehalem_cpu_def)




text \<open>
  What a successful probe leaves in \<open>lapic_timer_reliable_states\<close>: the switch assigns the
  mask for six of the eight models, whatever the ARAT test stored before.
\<close>

lemma intel_idle_probe_success_mask:
  assumes "fst (intel_idle_probe hw s) = Success"
  shows "lapic_timer_reliable_states (snd (intel_idle_probe hw s)) =
     (if x86_model hw \<in> {0x1A, 0x1E, 0x1F, 0x2E} then 2
      else if x86_model hw \<in> {0x1C, 0x26} then 6
      else if X86_FEATURE_ARAT hw then 0xFFFFFFFF
      else lapic_timer_reliable_states s)"
  using assms
  by (cases "cpuid hw CPUID_MWAIT_LEAF")
     (auto simp add: intel_idle_probe_def Let_def emit_def split: if_splits)

text \<open>
  Claim C1, evaluated on the code: on a machine that advertises ARAT and is matched as
  model 0x1A, the probe succeeds and leaves \<open>lapic_timer_reliable_states = 2\<close> (only the
  C1 bit), not all bits set.
\<close>

theorem probe_arat_mask_overwritten:
  "X86_FEATURE_ARAT arat_nehalem_cpu
   \<and> fst (intel_idle_probe arat_nehalem_cpu initial_globals) = Success
   \<and> lapic_timer_reliable_states (snd (intel_idle_probe arat_nehalem_cpu initial_globals)) = 2"
  by (simp add: arat_nehalem_cpu_def sample_eval)

subsection \<open>The idle entry\<close>

lemma idle_calls_no_mwait:
  "need_resched_first env \<or> need_resched_second env \<Longrightarrow> Mwait a b \<notin> set (idle_calls env eax ecx u)"
  by (auto simp add: idle_calls_def)

lemma idle_calls_irq_enable: "Local_irq_enable \<in> set (idle_calls env eax ecx u)"
  by (simp add: idle_calls_def)

lemma split_at_only_occurrence:
  assumes "x \<notin> set xs" "x \<notin> set ys" "xs @ y # ys = pre @ x # post"
  shows "pre = xs \<and> y = x \<and> post = ys"
  using assms
proof (induction xs arbitrary: pre)
  case Nil
  then show ?case by (cases pre) auto
next
  case (Cons z zs)
  then show ?case by (cases pre) auto
qed

lemma idle_calls_mwait_split:
  assumes "idle_calls env eax ecx u = pre @ Mwait a b # post"
  shows "\<not> need_resched_first env \<and> \<not> need_resched_second env
       \<and> (\<exists>pre'. pre = pre' @ [Monitor, Smp_mb, Need_resched False])"
proof -
  have m: "Mwait a b \<in> set (idle_calls env eax ecx u)" using assms by simp
  then have nr: "\<not> need_resched_first env" "\<not> need_resched_second env"
    using idle_calls_no_mwait[of env a b eax ecx u] by auto
  define xs where "xs = [Local_irq_disable]
     @ (if u then [Clockevents_notify CLOCK_EVT_NOTIFY_BROADCAST_ENTER (smp_processor_id env)] else [])
     @ [Ktime_get_real, Stop_critical_timings]
     @ (if built_as_module env then [] else [Trace_power_start (drop_bit 4 eax + 1)])
     @ [Need_resched False]"
  define ys where "ys = [Start_critical_timings, Ktime_get_real, Local_irq_enable]
     @ (if u then [Clockevents_notify CLOCK_EVT_NOTIFY_BROADCAST_EXIT (smp_processor_id env)] else [])"
  have eq: "idle_calls env eax ecx u = (xs @ [Monitor, Smp_mb, Need_resched False]) @ Mwait eax ecx # ys"
    using nr by (simp add: idle_calls_def xs_def ys_def)
  have nx: "Mwait a b \<notin> set (xs @ [Monitor, Smp_mb, Need_resched False])" by (simp add: xs_def)
  have ny: "Mwait a b \<notin> set ys" by (simp add: ys_def)
  have "pre = xs @ [Monitor, Smp_mb, Need_resched False]"
    using split_at_only_occurrence[OF nx ny, of "Mwait eax ecx" pre post] assms eq by simp
  then show ?thesis using nr by blast
qed

lemma call_choose_substate_events:
  assumes "choose_substate s = Some p"
  shows "\<exists>sub s1. call_choose_substate c s = Inr (sub, s1) \<and> events s1 = events s"
proof (cases p)
  case Choose_tunable_substate
  have "events (snd (choose_tunable_substate c s)) = events s"
    by (simp add: choose_tunable_substate_def Let_def)
  moreover have "call_choose_substate c s =
      Inr (fst (choose_tunable_substate c s), snd (choose_tunable_substate c s))"
    using assms Choose_tunable_substate by (simp add: call_choose_substate_def)
  ultimately show ?thesis by blast
next
  case Choose_zero_substate
  then show ?thesis using assms by (simp add: call_choose_substate_def choose_zero_substate_def)
qed

lemma idle_calls_irq_enable_last:
  "\<exists>pre post. idle_calls env eax ecx u = pre @ Local_irq_enable # post
     \<and> Local_irq_disable \<in> set pre
     \<and> Local_irq_disable \<notin> set post \<and> (\<forall>a b. Mwait a b \<notin> set post)
     \<and> set post \<subseteq> {Clockevents_notify CLOCK_EVT_NOTIFY_BROADCAST_EXIT (smp_processor_id env)}"
proof -
  define pre where "pre = [Local_irq_disable]
     @ (if u then [Clockevents_notify CLOCK_EVT_NOTIFY_BROADCAST_ENTER (smp_processor_id env)] else [])
     @ [Ktime_get_real, Stop_critical_timings]
     @ (if built_as_module env then [] else [Trace_power_start (drop_bit 4 eax + 1)])
     @ [Need_resched (need_resched_first env)]
     @ (if \<not> need_resched_first env
        then [Monitor, Smp_mb, Need_resched (need_resched_second env)]
             @ (if \<not> need_resched_second env then [Mwait eax ecx] else [])
        else [])
     @ [Start_critical_timings, Ktime_get_real]"
  define post where "post =
     (if u then [Clockevents_notify CLOCK_EVT_NOTIFY_BROADCAST_EXIT (smp_processor_id env)] else [])"
  have "idle_calls env eax ecx u = pre @ Local_irq_enable # post"
    by (simp add: idle_calls_def pre_def post_def)
  moreover have "Local_irq_disable \<in> set pre" by (simp add: pre_def)
  moreover have "Local_irq_disable \<notin> set post" "\<forall>a b. Mwait a b \<notin> set post"
    "set post \<subseteq> {Clockevents_notify CLOCK_EVT_NOTIFY_BROADCAST_EXIT (smp_processor_id env)}"
    by (auto simp add: post_def)
  ultimately show ?thesis by blast
qed

lemma idle_calls_pending:
  assumes "need_resched_first env"
  shows "\<exists>pre post. idle_calls env eax ecx u =
        pre @ [Need_resched True, Start_critical_timings, Ktime_get_real, Local_irq_enable] @ post
     \<and> Local_irq_disable \<in> set pre
     \<and> set pre \<subseteq> {Local_irq_disable,
           Clockevents_notify CLOCK_EVT_NOTIFY_BROADCAST_ENTER (smp_processor_id env),
           Ktime_get_real, Stop_critical_timings, Trace_power_start (drop_bit 4 eax + 1)}
     \<and> set post \<subseteq> {Clockevents_notify CLOCK_EVT_NOTIFY_BROADCAST_EXIT (smp_processor_id env)}"
proof -
  define pre where "pre = [Local_irq_disable]
     @ (if u then [Clockevents_notify CLOCK_EVT_NOTIFY_BROADCAST_ENTER (smp_processor_id env)] else [])
     @ [Ktime_get_real, Stop_critical_timings]
     @ (if built_as_module env then [] else [Trace_power_start (drop_bit 4 eax + 1)])"
  define post where "post =
     (if u then [Clockevents_notify CLOCK_EVT_NOTIFY_BROADCAST_EXIT (smp_processor_id env)] else [])"
  have "idle_calls env eax ecx u =
        pre @ [Need_resched True, Start_critical_timings, Ktime_get_real, Local_irq_enable] @ post"
    using assms by (simp add: idle_calls_def pre_def post_def)
  moreover have "Local_irq_disable \<in> set pre" by (simp add: pre_def)
  moreover have "set pre \<subseteq> {Local_irq_disable,
           Clockevents_notify CLOCK_EVT_NOTIFY_BROADCAST_ENTER (smp_processor_id env),
           Ktime_get_real, Stop_critical_timings, Trace_power_start (drop_bit 4 eax + 1)}"
    by (auto simp add: pre_def)
  moreover have
    "set post \<subseteq> {Clockevents_notify CLOCK_EVT_NOTIFY_BROADCAST_EXIT (smp_processor_id env)}"
    by (auto simp add: post_def)
  ultimately show ?thesis by blast
qed

text \<open>
  Claim C2. In every call of \<open>intel_idle\<close> that gets past the policy call, an MWAIT in
  the calls it makes comes directly after MONITOR, the memory barrier and a
  \<open>need_resched()\<close> re-check that read false. Interrupts are re-enabled before the
  return: \<open>local_irq_enable\<close> comes after \<open>local_irq_disable\<close> and after any MWAIT, and
  only the broadcast-exit notification can follow it. When the first \<open>need_resched()\<close>
  reads true, no MWAIT is issued: the check is followed at once by
  \<open>start_critical_timings\<close>, the second clock read and \<open>local_irq_enable\<close>, and the
  elapsed time between the two clock reads is returned. (With \<open>choose_substate\<close> unset
  the call faults before any of this.)
\<close>

theorem intel_idle_wait_guarded:
  "(choose_substate s = None \<longrightarrow> intel_idle env state s = Inl Null_function_call)
   \<and> (choose_substate s \<noteq> None \<longrightarrow>
        (\<exists>ret s' tr.
           intel_idle env state s = Inr (ret, s') \<and> events s' = events s @ tr
           \<and> (\<forall>pre a b post. tr = pre @ Mwait a b # post \<longrightarrow>
                 \<not> need_resched_second env
                 \<and> (\<exists>pre'. pre = pre' @ [Monitor, Smp_mb, Need_resched False]))
           \<and> (\<exists>pre post. tr = pre @ Local_irq_enable # post
                 \<and> Local_irq_disable \<in> set pre
                 \<and> Local_irq_disable \<notin> set post \<and> (\<forall>a b. Mwait a b \<notin> set post)
                 \<and> set post \<subseteq>
                     {Clockevents_notify CLOCK_EVT_NOTIFY_BROADCAST_EXIT (smp_processor_id env)})
           \<and> (need_resched_first env \<longrightarrow>
                 (\<forall>a b. Mwait a b \<notin> set tr)
                 \<and> Local_irq_enable \<in> set tr
                 \<and> (\<exists>pre post. tr =
                       pre @ [Need_resched True, Start_critical_timings, Ktime_get_real,
                              Local_irq_enable] @ post
                     \<and> Local_irq_disable \<in> set pre
                     \<and> set post \<subseteq>
                         {Clockevents_notify CLOCK_EVT_NOTIFY_BROADCAST_EXIT (smp_processor_id env)})
                 \<and> ret = ucast (ktime_to_us env (ktime_sub env (kt_after env) (kt_before env))))))"
proof (cases "choose_substate s")
  case None
  then show ?thesis by (simp add: intel_idle_def call_choose_substate_def Let_def)
next
  case (Some p)
  define cstate :: "32 word" where
    "cstate = ucast ((drop_bit MWAIT_SUBSTATE_SIZE (driver_data state) AND MWAIT_CSTATE_MASK) + 1)"
  obtain sub s1 where c: "call_choose_substate cstate s = Inr (sub, s1)" and e: "events s1 = events s"
    using call_choose_substate_events[OF Some] by blast
  define u where "u = (lapic_timer_reliable_states s1 AND push_bit (unat cstate) 1 = 0)"
  define tr where "tr = idle_calls env (driver_data state + scast sub) 1 u"
  have r: "intel_idle env state s =
      Inr (ucast (ktime_to_us env (ktime_sub env (kt_after env) (kt_before env))),
           s1\<lparr>events := events s1 @ tr\<rparr>)"
    using c by (simp add: intel_idle_def Let_def cstate_def [symmetric] tr_def u_def)
  have g: "\<forall>pre a b post. tr = pre @ Mwait a b # post \<longrightarrow>
       \<not> need_resched_second env \<and> (\<exists>pre'. pre = pre' @ [Monitor, Smp_mb, Need_resched False])"
    unfolding tr_def using idle_calls_mwait_split by blast
  have l: "\<exists>pre post. tr = pre @ Local_irq_enable # post
                 \<and> Local_irq_disable \<in> set pre
                 \<and> Local_irq_disable \<notin> set post \<and> (\<forall>a b. Mwait a b \<notin> set post)
                 \<and> set post \<subseteq>
                     {Clockevents_notify CLOCK_EVT_NOTIFY_BROADCAST_EXIT (smp_processor_id env)}"
    unfolding tr_def by (rule idle_calls_irq_enable_last)
  have n: "need_resched_first env \<longrightarrow> (\<forall>a b. Mwait a b \<notin> set tr) \<and> Local_irq_enable \<in> set tr"
    unfolding tr_def using idle_calls_no_mwait idle_calls_irq_enable by blast
  have q: "need_resched_first env \<longrightarrow>
        (\<exists>pre post. tr =
                       pre @ [Need_resched True, Start_critical_timings, Ktime_get_real,
                              Local_irq_enable] @ post
                     \<and> Local_irq_disable \<in> set pre
                     \<and> set post \<subseteq>
                         {Clockevents_notify CLOCK_EVT_NOTIFY_BROADCAST_EXIT (smp_processor_id env)})"
  proof
    assume f: "need_resched_first env"
    obtain pre post where "tr =
        pre @ [Need_resched True, Start_critical_timings, Ktime_get_real, Local_irq_enable] @ post"
      "Local_irq_disable \<in> set pre"
      "set post \<subseteq> {Clockevents_notify CLOCK_EVT_NOTIFY_BROADCAST_EXIT (smp_processor_id env)}"
      using idle_calls_pending[OF f, of "driver_data state + scast sub" 1 u]
      unfolding tr_def by (elim exE conjE)
    then show "\<exists>pre post. tr =
                       pre @ [Need_resched True, Start_critical_timings, Ktime_get_real,
                              Local_irq_enable] @ post
                     \<and> Local_irq_disable \<in> set pre
                     \<and> set post \<subseteq>
                         {Clockevents_notify CLOCK_EVT_NOTIFY_BROADCAST_EXIT (smp_processor_id env)}"
      by (intro exI conjI)
  qed
  show ?thesis using Some r e g l n q by simp
qed

theorem intel_idle_wait_guarded_witness:
  "intel_idle sample_idle_env (nehalem_cstates ! 2) initial_globals = Inl Null_function_call
   \<and> (\<exists>ret s'. intel_idle sample_idle_env (nehalem_cstates ! 2)
          (initial_globals\<lparr>choose_substate := Some Choose_tunable_substate\<rparr>) = Inr (ret, s')
        \<and> ret = 2 \<and> Local_irq_enable \<in> set (events s') \<and> (\<forall>a b. Mwait a b \<notin> set (events s')))
   \<and> events (snd (projr (intel_idle sample_idle_env (nehalem_cstates ! 2)
          (initial_globals\<lparr>choose_substate := Some Choose_tunable_substate\<rparr>))))
      = [Local_irq_disable, Clockevents_notify CLOCK_EVT_NOTIFY_BROADCAST_ENTER 0,
         Ktime_get_real, Stop_critical_timings, Trace_power_start 2, Need_resched True,
         Start_critical_timings, Ktime_get_real, Local_irq_enable,
         Clockevents_notify CLOCK_EVT_NOTIFY_BROADCAST_EXIT 0]
   \<and> events (snd (projr (intel_idle waiting_idle_env (nehalem_cstates ! 2)
          (initial_globals\<lparr>choose_substate := Some Choose_tunable_substate\<rparr>))))
      = [Local_irq_disable, Clockevents_notify CLOCK_EVT_NOTIFY_BROADCAST_ENTER 0,
         Ktime_get_real, Stop_critical_timings, Trace_power_start 2, Need_resched False,
         Monitor, Smp_mb, Need_resched False, Mwait 16 1,
         Start_critical_timings, Ktime_get_real, Local_irq_enable,
         Clockevents_notify CLOCK_EVT_NOTIFY_BROADCAST_EXIT 0]"
proof -
  have a: "intel_idle sample_idle_env (nehalem_cstates ! 2) initial_globals = Inl Null_function_call"
    using intel_idle_wait_guarded [of initial_globals sample_idle_env "nehalem_cstates ! 2"]
    by (simp add: initial_globals_def)
  have b: "\<exists>ret s'. intel_idle sample_idle_env (nehalem_cstates ! 2)
          (initial_globals\<lparr>choose_substate := Some Choose_tunable_substate\<rparr>) = Inr (ret, s')
        \<and> ret = 2 \<and> Local_irq_enable \<in> set (events s') \<and> (\<forall>a b. Mwait a b \<notin> set (events s'))"
    using intel_idle_wait_guarded
      [of "initial_globals\<lparr>choose_substate := Some Choose_tunable_substate\<rparr>"
        sample_idle_env "nehalem_cstates ! 2"]
    by (auto simp add: initial_globals_def sample_idle_env_def)
  have c: "events (snd (projr (intel_idle sample_idle_env (nehalem_cstates ! 2)
          (initial_globals\<lparr>choose_substate := Some Choose_tunable_substate\<rparr>))))
      = [Local_irq_disable, Clockevents_notify CLOCK_EVT_NOTIFY_BROADCAST_ENTER 0,
         Ktime_get_real, Stop_critical_timings, Trace_power_start 2, Need_resched True,
         Start_critical_timings, Ktime_get_real, Local_irq_enable,
         Clockevents_notify CLOCK_EVT_NOTIFY_BROADCAST_EXIT 0]"
    by code_simp
  have d: "events (snd (projr (intel_idle waiting_idle_env (nehalem_cstates ! 2)
          (initial_globals\<lparr>choose_substate := Some Choose_tunable_substate\<rparr>))))
      = [Local_irq_disable, Clockevents_notify CLOCK_EVT_NOTIFY_BROADCAST_ENTER 0,
         Ktime_get_real, Stop_critical_timings, Trace_power_start 2, Need_resched False,
         Monitor, Smp_mb, Need_resched False, Mwait 16 1,
         Start_critical_timings, Ktime_get_real, Local_irq_enable,
         Clockevents_notify CLOCK_EVT_NOTIFY_BROADCAST_EXIT 0]"
    by code_simp
  show ?thesis using a b c d by blast
qed

subsection \<open>Per-CPU devices\<close>

lemma cstate_loop_rows:
  assumes "cpuidle_state_table s = Some tbl" "sorted_wrt (<) cs"
    and "state_count dev + length cs \<le> length (states dev)"
  shows "\<exists>idxs evs.
      cstate_loop hw cs dev s =
        Inr (dev\<lparr>state_count := state_count dev + length idxs,
                 states := take (state_count dev) (states dev)
                           @ map (\<lambda>c. table_rows tbl ! c) idxs
                           @ drop (state_count dev + length idxs) (states dev)\<rparr>,
             s\<lparr>events := events s @ evs\<rparr>)
      \<and> sorted_wrt (<) idxs \<and> set idxs \<subseteq> set cs \<and> length idxs \<le> length cs"
  using assms
proof (induction cs arbitrary: dev s)
  case Nil
  have "cstate_loop hw [] dev s =
        Inr (dev\<lparr>state_count := state_count dev + length ([]::nat list),
                 states := take (state_count dev) (states dev)
                           @ map (\<lambda>c. table_rows tbl ! c) []
                           @ drop (state_count dev + length ([]::nat list)) (states dev)\<rparr>,
             s\<lparr>events := events s @ []\<rparr>)"
    by simp
  then show ?case by (intro exI[of _ "[]"]) simp
next
  case (Cons c rest)
  let ?n = "state_count dev"
  have srest: "sorted_wrt (<) rest" and cl: "\<forall>x \<in> set rest. c < x"
    using Cons.prems(2) by simp_all
  have len: "?n + length rest \<le> length (states dev)" and nlt: "?n < length (states dev)"
    using Cons.prems(3) by simp_all
  consider (brk) "int c > sint (max_cstate s)"
    | (skip) "\<not> int c > sint (max_cstate s)"
        "num_substates_of (substates s) c = 0 \<or> enter (table_rows tbl ! c) = None"
    | (copy) "\<not> int c > sint (max_cstate s)" "num_substates_of (substates s) c \<noteq> 0"
        "enter (table_rows tbl ! c) \<noteq> None"
    by blast
  then show ?case
  proof cases
    case brk
    have "cstate_loop hw (c # rest) dev s =
        Inr (dev\<lparr>state_count := ?n + length ([]::nat list),
                 states := take ?n (states dev)
                           @ map (\<lambda>c. table_rows tbl ! c) []
                           @ drop (?n + length ([]::nat list)) (states dev)\<rparr>,
             s\<lparr>events := events s @ []\<rparr>)"
      using brk by simp
    then show ?thesis by (intro exI[of _ "[]"]) simp
  next
    case skip
    have "cstate_loop hw (c # rest) dev s = cstate_loop hw rest dev s"
      using skip Cons.prems(1) by auto
    moreover obtain idxs evs where
      "cstate_loop hw rest dev s =
        Inr (dev\<lparr>state_count := ?n + length idxs,
                 states := take ?n (states dev)
                           @ map (\<lambda>c. table_rows tbl ! c) idxs
                           @ drop (?n + length idxs) (states dev)\<rparr>,
             s\<lparr>events := events s @ evs\<rparr>)"
      "sorted_wrt (<) idxs" "set idxs \<subseteq> set rest" "length idxs \<le> length rest"
      using Cons.IH[OF Cons.prems(1) srest len] by blast
    ultimately show ?thesis by (intro exI[of _ idxs] exI[of _ evs]) auto
  next
    case copy
    define row where "row = table_rows tbl ! c"
    define e1 where "e1 = (if c > 2 \<and> \<not> X86_FEATURE_NONSTOP_TSC hw then [Mark_tsc_unstable] else [])"
    define s1 where "s1 = s\<lparr>events := events s @ e1\<rparr>"
    define dev2 where "dev2 = dev\<lparr>states := (states dev)[?n := row], state_count := ?n + 1\<rparr>"
    have step: "cstate_loop hw (c # rest) dev s = cstate_loop hw rest dev2 s1"
      using copy Cons.prems(1)
      by (auto simp add: Let_def dev2_def s1_def e1_def row_def emit_def)
    have t1: "cpuidle_state_table s1 = Some tbl" using Cons.prems(1) by (simp add: s1_def)
    have l2: "state_count dev2 + length rest \<le> length (states dev2)"
      using Cons.prems(3) by (simp add: dev2_def)
    obtain idxs evs where r:
      "cstate_loop hw rest dev2 s1 =
        Inr (dev2\<lparr>state_count := state_count dev2 + length idxs,
                 states := take (state_count dev2) (states dev2)
                           @ map (\<lambda>c. table_rows tbl ! c) idxs
                           @ drop (state_count dev2 + length idxs) (states dev2)\<rparr>,
             s1\<lparr>events := events s1 @ evs\<rparr>)"
      and so: "sorted_wrt (<) idxs" and su: "set idxs \<subseteq> set rest"
      and le: "length idxs \<le> length rest"
      using Cons.IH[OF t1 srest l2] by blast
    have tk: "take (state_count dev2) (states dev2) = take ?n (states dev) @ [row]"
      using nlt by (simp add: dev2_def take_Suc_conv_app_nth)
    have dr: "drop (state_count dev2 + length idxs) (states dev2)
        = drop (?n + length (c # idxs)) (states dev)"
      by (simp add: dev2_def)
    have d: "dev2\<lparr>state_count := state_count dev2 + length idxs,
                 states := take (state_count dev2) (states dev2)
                           @ map (\<lambda>c. table_rows tbl ! c) idxs
                           @ drop (state_count dev2 + length idxs) (states dev2)\<rparr>
        = dev\<lparr>state_count := ?n + length (c # idxs),
                 states := take ?n (states dev)
                           @ map (\<lambda>c. table_rows tbl ! c) (c # idxs)
                           @ drop (?n + length (c # idxs)) (states dev)\<rparr>"
      unfolding tk dr by (simp add: dev2_def row_def)
    have e: "s1\<lparr>events := events s1 @ evs\<rparr> = s\<lparr>events := events s @ (e1 @ evs)\<rparr>"
      by (simp add: s1_def)
    have "sorted_wrt (<) (c # idxs)" using so su cl by auto
    moreover have "set (c # idxs) \<subseteq> set (c # rest)" using su by auto
    moreover have "length (c # idxs) \<le> length (c # rest)" using le by simp
    ultimately show ?thesis
      using step r d e by (intro exI[of _ "c # idxs"] exI[of _ "e1 @ evs"]) simp
  qed
qed

lemma device_built:
  assumes "cpuidle_state_table s = Some tbl" "length (states d0) = 8"
  shows "\<exists>dev1 idxs evs.
      cstate_loop hw [1..<MWAIT_MAX_NUM_CSTATES] (d0\<lparr>state_count := 1\<rparr>) s
        = Inr (dev1, s\<lparr>events := events s @ evs\<rparr>)
      \<and> length (states dev1) = 8 \<and> cpu dev1 = cpu d0
      \<and> sorted_wrt (<) idxs \<and> set idxs \<subseteq> {1..<MWAIT_MAX_NUM_CSTATES}
      \<and> state_count dev1 = 1 + length idxs
      \<and> active_rows dev1 = map (\<lambda>c. table_rows tbl ! c) idxs"
proof -
  let ?d = "d0\<lparr>state_count := 1\<rparr>"
  let ?cs = "[1..<MWAIT_MAX_NUM_CSTATES]"
  have a: "sorted_wrt (<) ?cs" by simp
  have b: "state_count ?d + length ?cs \<le> length (states ?d)"
    using assms(2) by (simp add: MWAIT_MAX_NUM_CSTATES_def)
  obtain idxs evs where r:
    "cstate_loop hw ?cs ?d s =
        Inr (?d\<lparr>state_count := state_count ?d + length idxs,
                 states := take (state_count ?d) (states ?d)
                           @ map (\<lambda>c. table_rows tbl ! c) idxs
                           @ drop (state_count ?d + length idxs) (states ?d)\<rparr>,
             s\<lparr>events := events s @ evs\<rparr>)"
    and so: "sorted_wrt (<) idxs" and su: "set idxs \<subseteq> set ?cs" and le: "length idxs \<le> length ?cs"
    using cstate_loop_rows[OF assms(1) a b, of hw] by blast
  define dev1 where "dev1 = ?d\<lparr>state_count := state_count ?d + length idxs,
                 states := take (state_count ?d) (states ?d)
                           @ map (\<lambda>c. table_rows tbl ! c) idxs
                           @ drop (state_count ?d + length idxs) (states ?d)\<rparr>"
  have l7: "length idxs \<le> 7" using le by (simp add: MWAIT_MAX_NUM_CSTATES_def)
  obtain x xs where xs: "states d0 = x # xs" "length xs = 7"
    using assms(2) by (cases "states d0") auto
  have st: "states dev1 = x # map (\<lambda>c. table_rows tbl ! c) idxs @ drop (length idxs) xs"
    by (simp add: dev1_def xs)
  have "length (states dev1) = 8" using l7 xs by (simp add: st)
  moreover have "cpu dev1 = cpu d0" by (simp add: dev1_def)
  moreover have "state_count dev1 = 1 + length idxs" by (simp add: dev1_def)
  moreover have "active_rows dev1 = map (\<lambda>c. table_rows tbl ! c) idxs"
    by (simp add: active_rows_def st) (simp add: dev1_def)
  moreover have "set idxs \<subseteq> {1..<MWAIT_MAX_NUM_CSTATES}" using su by simp
  ultimately show ?thesis using r so unfolding dev1_def [symmetric] by blast
qed

lemma unregister_loop_effect:
  "registered (unregister_loop area cs s) = registered s - (\<lambda>j. cpu (area j)) ` set cs
   \<and> intel_idle_cpuidle_devices (unregister_loop area cs s) = intel_idle_cpuidle_devices s
   \<and> cpuidle_state_table (unregister_loop area cs s) = cpuidle_state_table s"
  by (induction cs arbitrary: s) (auto simp add: cpuidle_unregister_device_def emit_def)

lemma uninit_live:
  assumes "intel_idle_cpuidle_devices s = Live area"
  shows "\<exists>s'. intel_idle_cpuidle_devices_uninit k s = Inr s'
       \<and> intel_idle_cpuidle_devices s' = Freed
       \<and> cpuidle_state_table s' = cpuidle_state_table s
       \<and> registered s' = registered s - (\<lambda>j. cpu (area j)) ` set (online_cpus k)"
  using assms
  by (simp add: intel_idle_cpuidle_devices_uninit_def emit_def unregister_loop_effect)

lemma cpu_loop_outcome:
  assumes "intel_idle_cpuidle_devices s = Live area" "cpuidle_state_table s = Some tbl"
    and "\<forall>j. length (states (area j)) = 8" "set cs \<subseteq> set (online_cpus k)"
  shows "\<exists>st s'. cpu_loop k hw cs s = Inr (st, s')
     \<and> ((\<exists>c\<in>set cs. register_device_fails k c) \<longrightarrow>
           st = Failure EIO \<and> intel_idle_cpuidle_devices s' = Freed
           \<and> registered s' \<subseteq> registered s - {j \<in> set (online_cpus k). cpu (area j) = j}
                 - set (takeWhile (\<lambda>c. \<not> register_device_fails k c) cs))
     \<and> ((\<forall>c\<in>set cs. \<not> register_device_fails k c) \<longrightarrow>
           st = Success \<and> registered s' = registered s \<union> set cs
           \<and> (\<exists>area'. intel_idle_cpuidle_devices s' = Live area'
                \<and> (\<forall>j. length (states (area' j)) = 8)
                \<and> (\<forall>j. j \<notin> set cs \<longrightarrow> area' j = area j)
                \<and> (\<forall>j\<in>set cs. cpu (area' j) = j
                      \<and> (\<exists>idxs. sorted_wrt (<) idxs \<and> set idxs \<subseteq> {1..<MWAIT_MAX_NUM_CSTATES}
                            \<and> state_count (area' j) = 1 + length idxs
                            \<and> active_rows (area' j) = map (\<lambda>c. table_rows tbl ! c) idxs))))"
  using assms
proof (induction cs arbitrary: s area)
  case Nil
  then show ?case by simp
next
  case (Cons i rest)
  obtain dev1 idxs evs where b:
      "cstate_loop hw [1..<MWAIT_MAX_NUM_CSTATES] ((area i)\<lparr>state_count := 1\<rparr>) s
        = Inr (dev1, s\<lparr>events := events s @ evs\<rparr>)"
      and b8: "length (states dev1) = 8"
      and bi: "sorted_wrt (<) idxs" "set idxs \<subseteq> {1..<MWAIT_MAX_NUM_CSTATES}"
        "state_count dev1 = 1 + length idxs"
        "active_rows dev1 = map (\<lambda>c. table_rows tbl ! c) idxs"
    using device_built[OF Cons.prems(2), of "area i" hw] Cons.prems(3) by blast
  define dev2 where "dev2 = dev1\<lparr>cpu := i\<rparr>"
  define area2 where "area2 = area(i := dev2)"
  define s2 where "s2 = s\<lparr>events := events s @ evs, intel_idle_cpuidle_devices := Live area2\<rparr>"
  define s3 where "s3 = emit (Cpuidle_register_device i) s2"
  have d2: "cpu dev2 = i" "length (states dev2) = 8" "state_count dev2 = 1 + length idxs"
      "active_rows dev2 = map (\<lambda>c. table_rows tbl ! c) idxs"
    using b8 bi by (simp_all add: dev2_def active_rows_def)
  have a8: "\<forall>j. length (states (area2 j)) = 8"
    using Cons.prems(3) d2 by (simp add: area2_def)
  have ion: "i \<in> set (online_cpus k)" and ron: "set rest \<subseteq> set (online_cpus k)"
    using Cons.prems(4) by simp_all
  have grow: "{j \<in> set (online_cpus k). cpu (area j) = j}
      \<subseteq> {j \<in> set (online_cpus k). cpu (area2 j) = j}"
    using d2 by (auto simp add: area2_def)
  have self: "i \<in> {j \<in> set (online_cpus k). cpu (area2 j) = j}"
    using ion d2 by (simp add: area2_def)
  show ?case
  proof (cases "register_device_fails k i")
    case True
    have p3: "intel_idle_cpuidle_devices s3 = Live area2" by (simp add: s3_def s2_def emit_def)
    obtain s4 where u: "intel_idle_cpuidle_devices_uninit k s3 = Inr s4"
        "intel_idle_cpuidle_devices s4 = Freed"
        "registered s4 = registered s3 - (\<lambda>j. cpu (area2 j)) ` set (online_cpus k)"
      using uninit_live[OF p3, of k] by blast
    have r3: "registered s3 = registered s" by (simp add: s3_def s2_def emit_def)
    have run: "cpu_loop k hw (i # rest) s = Inr (Failure EIO, s4)"
      using Cons.prems(1) b True u(1)
      by (simp add: Let_def cpuidle_register_device_def dev2_def [symmetric] d2
          area2_def [symmetric] s2_def [symmetric] s3_def [symmetric])
    have "registered s4 \<subseteq> registered s - {j \<in> set (online_cpus k). cpu (area2 j) = j}"
      using u(3) r3 by force
    then have "registered s4 \<subseteq> registered s - {j \<in> set (online_cpus k). cpu (area j) = j}
        - set (takeWhile (\<lambda>c. \<not> register_device_fails k c) (i # rest))"
      using grow True by auto
    then show ?thesis using run u(2) True by auto
  next
    case False
    define s3' where "s3' = s3\<lparr>registered := insert i (registered s3)\<rparr>"
    have p3: "intel_idle_cpuidle_devices s3' = Live area2"
      by (simp add: s3'_def s3_def s2_def emit_def)
    have t3: "cpuidle_state_table s3' = Some tbl"
      using Cons.prems(2) by (simp add: s3'_def s3_def s2_def emit_def)
    have r3: "registered s3' = insert i (registered s)"
      by (simp add: s3'_def s3_def s2_def emit_def)
    have run: "cpu_loop k hw (i # rest) s = cpu_loop k hw rest s3'"
      using Cons.prems(1) b False
      by (simp add: Let_def cpuidle_register_device_def dev2_def [symmetric] d2
          area2_def [symmetric] s2_def [symmetric] s3_def [symmetric] s3'_def [symmetric])
    obtain st s' where ih: "cpu_loop k hw rest s3' = Inr (st, s')"
      and ihf: "(\<exists>c\<in>set rest. register_device_fails k c) \<longrightarrow>
           st = Failure EIO \<and> intel_idle_cpuidle_devices s' = Freed
           \<and> registered s' \<subseteq> registered s3' - {j \<in> set (online_cpus k). cpu (area2 j) = j}
                 - set (takeWhile (\<lambda>c. \<not> register_device_fails k c) rest)"
      and ihs: "(\<forall>c\<in>set rest. \<not> register_device_fails k c) \<longrightarrow>
           st = Success \<and> registered s' = registered s3' \<union> set rest
           \<and> (\<exists>area'. intel_idle_cpuidle_devices s' = Live area'
                \<and> (\<forall>j. length (states (area' j)) = 8)
                \<and> (\<forall>j. j \<notin> set rest \<longrightarrow> area' j = area2 j)
                \<and> (\<forall>j\<in>set rest. cpu (area' j) = j
                      \<and> (\<exists>idxs. sorted_wrt (<) idxs \<and> set idxs \<subseteq> {1..<MWAIT_MAX_NUM_CSTATES}
                            \<and> state_count (area' j) = 1 + length idxs
                            \<and> active_rows (area' j) = map (\<lambda>c. table_rows tbl ! c) idxs)))"
      using Cons.IH[OF p3 t3 a8 ron] by blast
    have fail: "(\<exists>c\<in>set (i # rest). register_device_fails k c) \<longrightarrow>
           st = Failure EIO \<and> intel_idle_cpuidle_devices s' = Freed
           \<and> registered s' \<subseteq> registered s - {j \<in> set (online_cpus k). cpu (area j) = j}
                 - set (takeWhile (\<lambda>c. \<not> register_device_fails k c) (i # rest))"
    proof
      assume "\<exists>c\<in>set (i # rest). register_device_fails k c"
      then have ex: "\<exists>c\<in>set rest. register_device_fails k c" using False by simp
      from ihf ex have f: "st = Failure EIO" "intel_idle_cpuidle_devices s' = Freed"
        and sub: "registered s' \<subseteq> registered s3' - {j \<in> set (online_cpus k). cpu (area2 j) = j}
                 - set (takeWhile (\<lambda>c. \<not> register_device_fails k c) rest)"
        by simp_all
      have "registered s' \<subseteq> registered s - {j \<in> set (online_cpus k). cpu (area j) = j}
                 - set (takeWhile (\<lambda>c. \<not> register_device_fails k c) (i # rest))"
        using sub r3 grow self False by auto
      then show "st = Failure EIO \<and> intel_idle_cpuidle_devices s' = Freed
           \<and> registered s' \<subseteq> registered s - {j \<in> set (online_cpus k). cpu (area j) = j}
                 - set (takeWhile (\<lambda>c. \<not> register_device_fails k c) (i # rest))"
        using f by simp
    qed
    have succ: "(\<forall>c\<in>set (i # rest). \<not> register_device_fails k c) \<longrightarrow>
           st = Success \<and> registered s' = registered s \<union> set (i # rest)
           \<and> (\<exists>area'. intel_idle_cpuidle_devices s' = Live area'
                \<and> (\<forall>j. length (states (area' j)) = 8)
                \<and> (\<forall>j. j \<notin> set (i # rest) \<longrightarrow> area' j = area j)
                \<and> (\<forall>j\<in>set (i # rest). cpu (area' j) = j
                      \<and> (\<exists>idxs. sorted_wrt (<) idxs \<and> set idxs \<subseteq> {1..<MWAIT_MAX_NUM_CSTATES}
                            \<and> state_count (area' j) = 1 + length idxs
                            \<and> active_rows (area' j) = map (\<lambda>c. table_rows tbl ! c) idxs)))"
    proof
      assume "\<forall>c\<in>set (i # rest). \<not> register_device_fails k c"
      then have all: "\<forall>c\<in>set rest. \<not> register_device_fails k c" by simp
      from ihs all obtain area' where g: "st = Success" "registered s' = registered s3' \<union> set rest"
          "intel_idle_cpuidle_devices s' = Live area'"
          "\<forall>j. length (states (area' j)) = 8"
          "\<forall>j. j \<notin> set rest \<longrightarrow> area' j = area2 j"
        and gr: "\<forall>j\<in>set rest. cpu (area' j) = j
                      \<and> (\<exists>idxs. sorted_wrt (<) idxs \<and> set idxs \<subseteq> {1..<MWAIT_MAX_NUM_CSTATES}
                            \<and> state_count (area' j) = 1 + length idxs
                            \<and> active_rows (area' j) = map (\<lambda>c. table_rows tbl ! c) idxs)"
        by blast
      have gi: "cpu (area' i) = i
                      \<and> (\<exists>idxs. sorted_wrt (<) idxs \<and> set idxs \<subseteq> {1..<MWAIT_MAX_NUM_CSTATES}
                            \<and> state_count (area' i) = 1 + length idxs
                            \<and> active_rows (area' i) = map (\<lambda>c. table_rows tbl ! c) idxs)"
      proof (cases "i \<in> set rest")
        case True
        then show ?thesis using gr by blast
      next
        case False
        then have "area' i = dev2" using g(5) by (simp add: area2_def)
        then show ?thesis using d2 bi(1,2) by auto
      qed
      have keep: "\<forall>j. j \<notin> set (i # rest) \<longrightarrow> area' j = area j"
        using g(5) by (simp add: area2_def)
      have "registered s' = registered s \<union> set (i # rest)" using g(2) r3 by auto
      then show "st = Success \<and> registered s' = registered s \<union> set (i # rest)
           \<and> (\<exists>area'. intel_idle_cpuidle_devices s' = Live area'
                \<and> (\<forall>j. length (states (area' j)) = 8)
                \<and> (\<forall>j. j \<notin> set (i # rest) \<longrightarrow> area' j = area j)
                \<and> (\<forall>j\<in>set (i # rest). cpu (area' j) = j
                      \<and> (\<exists>idxs. sorted_wrt (<) idxs \<and> set idxs \<subseteq> {1..<MWAIT_MAX_NUM_CSTATES}
                            \<and> state_count (area' j) = 1 + length idxs
                            \<and> active_rows (area' j) = map (\<lambda>c. table_rows tbl ! c) idxs)))"
        using g(1,3,4) keep gi gr by auto
    qed
    show ?thesis using run ih fail succ by simp
  qed
qed

text \<open>
  Claim C3. If \<open>cpuidle_register_device\<close> fails for some online core, then
  \<open>intel_idle_cpuidle_devices_init\<close> (after a successful allocation, with the table
  selected) returns \<open>-EIO\<close> with the per-cpu storage freed; no core registered on the
  way stays registered and none is added, so starting from no registered core none is
  left.
\<close>

theorem devices_init_unwinds:
  assumes "alloc_percpu_ok k" "cpuidle_state_table s = Some tbl"
    and "c \<in> set (online_cpus k)" "register_device_fails k c"
  shows "\<exists>s'. intel_idle_cpuidle_devices_init k hw s = Inr (Failure EIO, s')
       \<and> intel_idle_cpuidle_devices s' = Freed
       \<and> registered s' \<subseteq> registered s
       \<and> registered s' \<inter> set (takeWhile (\<lambda>c. \<not> register_device_fails k c) (online_cpus k)) = {}
       \<and> (registered s = {} \<longrightarrow> registered s' = {})"
proof -
  define s0 where "s0 = (emit Alloc_percpu s)\<lparr>intel_idle_cpuidle_devices := Live (\<lambda>_. zero_device)\<rparr>"
  have run: "intel_idle_cpuidle_devices_init k hw s = cpu_loop k hw (online_cpus k) s0"
    using assms(1) by (simp add: intel_idle_cpuidle_devices_init_def Let_def s0_def)
  have p: "intel_idle_cpuidle_devices s0 = Live (\<lambda>_. zero_device)"
    and t: "cpuidle_state_table s0 = Some tbl" and r: "registered s0 = registered s"
    using assms(2) by (simp_all add: s0_def emit_def)
  have l: "\<forall>j. length (states ((\<lambda>_. zero_device) j)) = 8" by (simp add: zero_device_def)
  have ex: "\<exists>c\<in>set (online_cpus k). register_device_fails k c" using assms(3,4) by blast
  obtain st s' where o: "cpu_loop k hw (online_cpus k) s0 = Inr (st, s')"
    and f: "(\<exists>c\<in>set (online_cpus k). register_device_fails k c) \<longrightarrow>
           st = Failure EIO \<and> intel_idle_cpuidle_devices s' = Freed
           \<and> registered s' \<subseteq> registered s0
                 - {j \<in> set (online_cpus k). cpu ((\<lambda>_. zero_device) j) = j}
                 - set (takeWhile (\<lambda>c. \<not> register_device_fails k c) (online_cpus k))"
    using cpu_loop_outcome[OF p t l subset_refl, where hw = hw] by blast
  from f ex have g: "st = Failure EIO" "intel_idle_cpuidle_devices s' = Freed"
    and sub: "registered s' \<subseteq> registered s0
                 - {j \<in> set (online_cpus k). cpu ((\<lambda>_. zero_device) j) = j}
                 - set (takeWhile (\<lambda>c. \<not> register_device_fails k c) (online_cpus k))"
    by simp_all
  have "registered s' \<subseteq> registered s" using sub r by auto
  moreover have "registered s' \<inter> set (takeWhile (\<lambda>c. \<not> register_device_fails k c) (online_cpus k)) = {}"
    using sub by auto
  ultimately show ?thesis using run o g by auto
qed

theorem devices_init_unwinds_witness:
  "\<exists>s'. intel_idle_cpuidle_devices_init sample_kernel nehalem_cpu sample_probed
           = Inr (Failure EIO, s')
       \<and> intel_idle_cpuidle_devices s' = Freed \<and> registered s' = {}"
proof -
  have a: "alloc_percpu_ok sample_kernel" by (simp add: sample_kernel_def)
  have t: "cpuidle_state_table sample_probed = Some Nehalem_cstates"
    by (simp add: sample_probed_def sample_eval)
  have c: "2 \<in> set (online_cpus sample_kernel)" "register_device_fails sample_kernel 2"
    by (simp_all add: sample_kernel_def)
  have r: "registered sample_probed = {}" by (simp add: sample_probed_def sample_eval)
  show ?thesis
    using devices_init_unwinds [OF a t c, where hw = nehalem_cpu] r by blast
qed

text \<open>What a successful set-up leaves: every online core registered, and for each of
  them a device that carries the core's id and rows copied in increasing C-state order.\<close>

lemma devices_init_success:
  assumes "intel_idle_cpuidle_devices_init k hw s = Inr (Success, s')"
    and "cpuidle_state_table s = Some tbl"
  shows "\<exists>area. intel_idle_cpuidle_devices s' = Live area
       \<and> registered s' = registered s \<union> set (online_cpus k)
       \<and> (\<forall>j\<in>set (online_cpus k). cpu (area j) = j
             \<and> (\<exists>idxs. sorted_wrt (<) idxs \<and> set idxs \<subseteq> {1..<MWAIT_MAX_NUM_CSTATES}
                   \<and> state_count (area j) = 1 + length idxs
                   \<and> active_rows (area j) = map (\<lambda>c. table_rows tbl ! c) idxs))"
proof -
  define s0 where "s0 = (emit Alloc_percpu s)\<lparr>intel_idle_cpuidle_devices := Live (\<lambda>_. zero_device)\<rparr>"
  have ok: "alloc_percpu_ok k"
  proof (rule ccontr)
    assume "\<not> alloc_percpu_ok k"
    then have "fst (projr (intel_idle_cpuidle_devices_init k hw s)) = Failure ENOMEM"
      by (simp add: intel_idle_cpuidle_devices_init_def Let_def)
    then show False using assms(1) by simp
  qed
  then have run: "cpu_loop k hw (online_cpus k) s0 = Inr (Success, s')"
    using assms(1) by (simp add: intel_idle_cpuidle_devices_init_def Let_def s0_def)
  have p: "intel_idle_cpuidle_devices s0 = Live (\<lambda>_. zero_device)"
    and t: "cpuidle_state_table s0 = Some tbl" and r0: "registered s0 = registered s"
    using assms(2) by (simp_all add: s0_def emit_def)
  have l: "\<forall>j. length (states ((\<lambda>_. zero_device) j)) = 8" by (simp add: zero_device_def)
  have "\<exists>st s''. cpu_loop k hw (online_cpus k) s0 = Inr (st, s'')
     \<and> ((\<exists>c\<in>set (online_cpus k). register_device_fails k c) \<longrightarrow>
           st = Failure EIO \<and> intel_idle_cpuidle_devices s'' = Freed
           \<and> registered s'' \<subseteq> registered s0
                 - {j \<in> set (online_cpus k). cpu ((\<lambda>_. zero_device) j) = j}
                 - set (takeWhile (\<lambda>c. \<not> register_device_fails k c) (online_cpus k)))
     \<and> ((\<forall>c\<in>set (online_cpus k). \<not> register_device_fails k c) \<longrightarrow>
           st = Success \<and> registered s'' = registered s0 \<union> set (online_cpus k)
           \<and> (\<exists>area'. intel_idle_cpuidle_devices s'' = Live area'
                \<and> (\<forall>j. length (states (area' j)) = 8)
                \<and> (\<forall>j. j \<notin> set (online_cpus k) \<longrightarrow> area' j = (\<lambda>_. zero_device) j)
                \<and> (\<forall>j\<in>set (online_cpus k). cpu (area' j) = j
                      \<and> (\<exists>idxs. sorted_wrt (<) idxs \<and> set idxs \<subseteq> {1..<MWAIT_MAX_NUM_CSTATES}
                            \<and> state_count (area' j) = 1 + length idxs
                            \<and> active_rows (area' j) = map (\<lambda>c. table_rows tbl ! c) idxs))))"
    by (rule cpu_loop_outcome[OF p t l subset_refl])
  then obtain st s'' where o: "cpu_loop k hw (online_cpus k) s0 = Inr (st, s'')"
    and f: "(\<exists>c\<in>set (online_cpus k). register_device_fails k c) \<longrightarrow>
           st = Failure EIO \<and> intel_idle_cpuidle_devices s'' = Freed
           \<and> registered s'' \<subseteq> registered s0
                 - {j \<in> set (online_cpus k). cpu ((\<lambda>_. zero_device) j) = j}
                 - set (takeWhile (\<lambda>c. \<not> register_device_fails k c) (online_cpus k))"
    and g: "(\<forall>c\<in>set (online_cpus k). \<not> register_device_fails k c) \<longrightarrow>
           st = Success \<and> registered s'' = registered s0 \<union> set (online_cpus k)
           \<and> (\<exists>area'. intel_idle_cpuidle_devices s'' = Live area'
                \<and> (\<forall>j. length (states (area' j)) = 8)
                \<and> (\<forall>j. j \<notin> set (online_cpus k) \<longrightarrow> area' j = (\<lambda>_. zero_device) j)
                \<and> (\<forall>j\<in>set (online_cpus k). cpu (area' j) = j
                      \<and> (\<exists>idxs. sorted_wrt (<) idxs \<and> set idxs \<subseteq> {1..<MWAIT_MAX_NUM_CSTATES}
                            \<and> state_count (area' j) = 1 + length idxs
                            \<and> active_rows (area' j) = map (\<lambda>c. table_rows tbl ! c) idxs)))"
    by (elim exE conjE)
  have e: "st = Success" "s'' = s'" using run o by simp_all
  have nf: "\<forall>c\<in>set (online_cpus k). \<not> register_device_fails k c"
  proof (rule ccontr)
    assume "\<not> (\<forall>c\<in>set (online_cpus k). \<not> register_device_fails k c)"
    then have "\<exists>c\<in>set (online_cpus k). register_device_fails k c" by simp
    with f have "st = Failure EIO" by (rule_tac conjunct1) (erule (1) mp)
    with e(1) show False by simp
  qed
  from g nf have "st = Success \<and> registered s'' = registered s0 \<union> set (online_cpus k)
           \<and> (\<exists>area'. intel_idle_cpuidle_devices s'' = Live area'
                \<and> (\<forall>j. length (states (area' j)) = 8)
                \<and> (\<forall>j. j \<notin> set (online_cpus k) \<longrightarrow> area' j = (\<lambda>_. zero_device) j)
                \<and> (\<forall>j\<in>set (online_cpus k). cpu (area' j) = j
                      \<and> (\<exists>idxs. sorted_wrt (<) idxs \<and> set idxs \<subseteq> {1..<MWAIT_MAX_NUM_CSTATES}
                            \<and> state_count (area' j) = 1 + length idxs
                            \<and> active_rows (area' j) = map (\<lambda>c. table_rows tbl ! c) idxs)))"
    by (rule mp)
  then obtain area where reg: "registered s' = registered s0 \<union> set (online_cpus k)"
    and p': "intel_idle_cpuidle_devices s' = Live area"
    and all: "\<forall>j\<in>set (online_cpus k). cpu (area j) = j
                      \<and> (\<exists>idxs. sorted_wrt (<) idxs \<and> set idxs \<subseteq> {1..<MWAIT_MAX_NUM_CSTATES}
                            \<and> state_count (area j) = 1 + length idxs
                            \<and> active_rows (area j) = map (\<lambda>c. table_rows tbl ! c) idxs)"
    unfolding e by (elim exE conjE)
  show ?thesis
  proof (intro exI conjI)
    show "intel_idle_cpuidle_devices s' = Live area" by (rule p')
    show "registered s' = registered s \<union> set (online_cpus k)" using reg r0 by simp
    show "\<forall>j\<in>set (online_cpus k). cpu (area j) = j
             \<and> (\<exists>idxs. sorted_wrt (<) idxs \<and> set idxs \<subseteq> {1..<MWAIT_MAX_NUM_CSTATES}
                   \<and> state_count (area j) = 1 + length idxs
                   \<and> active_rows (area j) = map (\<lambda>c. table_rows tbl ! c) idxs)"
      by (rule all)
  qed
qed

text \<open>Tearing down what a successful set-up from no registered core installed leaves no
  core registered.\<close>

lemma devices_init_then_uninit:
  assumes "intel_idle_cpuidle_devices_init k hw s = Inr (Success, s1)"
    and "cpuidle_state_table s = Some tbl" "registered s = {}"
  shows "\<exists>s2. intel_idle_cpuidle_devices_uninit k s1 = Inr s2
       \<and> intel_idle_cpuidle_devices s2 = Freed \<and> registered s2 = {}"
proof -
  obtain area where p: "intel_idle_cpuidle_devices s1 = Live area"
    and r: "registered s1 = registered s \<union> set (online_cpus k)"
    and c: "\<forall>j\<in>set (online_cpus k). cpu (area j) = j
             \<and> (\<exists>idxs. sorted_wrt (<) idxs \<and> set idxs \<subseteq> {1..<MWAIT_MAX_NUM_CSTATES}
                   \<and> state_count (area j) = 1 + length idxs
                   \<and> active_rows (area j) = map (\<lambda>c. table_rows tbl ! c) idxs)"
    using devices_init_success[OF assms(1,2)] by (elim exE conjE)
  obtain s2 where u: "intel_idle_cpuidle_devices_uninit k s1 = Inr s2"
    "intel_idle_cpuidle_devices s2 = Freed"
    "registered s2 = registered s1 - (\<lambda>j. cpu (area j)) ` set (online_cpus k)"
    using uninit_live[OF p, of k] by blast
  have "\<forall>j\<in>set (online_cpus k). cpu (area j) = j" using c by (rule_tac ballI) (drule (1) bspec, erule conjunct1)
  then have "(\<lambda>j. cpu (area j)) ` set (online_cpus k) = set (online_cpus k)" by force
  then have "registered s2 = {}" using u(3) r assms(3) by simp
  then show ?thesis using u(1,2) by blast
qed

text \<open>
  Claim C6. After a successful \<open>intel_idle_cpuidle_devices_init\<close>, the device of every
  online core holds, in \<open>states[1..state_count)\<close>, the table rows of a strictly
  increasing sequence of C-state numbers between 1 and 7.
\<close>

theorem devices_init_depth_monotonic:
  assumes "intel_idle_cpuidle_devices_init k hw s = Inr (Success, s')"
    and "cpuidle_state_table s = Some tbl" "i \<in> set (online_cpus k)"
  shows "\<exists>area idxs. intel_idle_cpuidle_devices s' = Live area \<and> cpu (area i) = i
       \<and> sorted_wrt (<) idxs \<and> set idxs \<subseteq> {1..<MWAIT_MAX_NUM_CSTATES}
       \<and> state_count (area i) = 1 + length idxs
       \<and> active_rows (area i) = map (\<lambda>c. table_rows tbl ! c) idxs"
proof -
  obtain area where p: "intel_idle_cpuidle_devices s' = Live area"
    and r: "registered s' = registered s \<union> set (online_cpus k)"
    and all: "\<forall>j\<in>set (online_cpus k). cpu (area j) = j
             \<and> (\<exists>idxs. sorted_wrt (<) idxs \<and> set idxs \<subseteq> {1..<MWAIT_MAX_NUM_CSTATES}
                   \<and> state_count (area j) = 1 + length idxs
                   \<and> active_rows (area j) = map (\<lambda>c. table_rows tbl ! c) idxs)"
    using devices_init_success[OF assms(1,2)] by (elim exE conjE)
  from all assms(3) obtain idxs where "cpu (area i) = i" "sorted_wrt (<) idxs"
      "set idxs \<subseteq> {1..<MWAIT_MAX_NUM_CSTATES}" "state_count (area i) = 1 + length idxs"
      "active_rows (area i) = map (\<lambda>c. table_rows tbl ! c) idxs"
    by blast
  then show ?thesis using p by blast
qed

theorem devices_init_depth_monotonic_witness:
  "\<exists>s' area. intel_idle_cpuidle_devices_init all_ok_kernel nehalem_cpu sample_probed
         = Inr (Success, s')
     \<and> intel_idle_cpuidle_devices s' = Live area
     \<and> active_rows (area 3) = map (\<lambda>c. table_rows Nehalem_cstates ! c) [1, 2, 3]
     \<and> (\<exists>idxs. sorted_wrt (<) idxs
           \<and> active_rows (area 3) = map (\<lambda>c. table_rows Nehalem_cstates ! c) idxs)"
proof -
  have "(case intel_idle_cpuidle_devices_init all_ok_kernel nehalem_cpu sample_probed of
      Inr (Success, s') \<Rightarrow>
        (case intel_idle_cpuidle_devices s' of
           Live area \<Rightarrow> active_rows (area 3) = map (\<lambda>c. table_rows Nehalem_cstates ! c) [1, 2, 3]
         | _ \<Rightarrow> False)
    | _ \<Rightarrow> False)"
    by code_simp
  then obtain s' area
    where r: "intel_idle_cpuidle_devices_init all_ok_kernel nehalem_cpu sample_probed
                = Inr (Success, s')"
    and p: "intel_idle_cpuidle_devices s' = Live area"
    and a: "active_rows (area 3) = map (\<lambda>c. table_rows Nehalem_cstates ! c) [1, 2, 3]"
    by (auto split: sum.splits prod.splits status.splits percpu_ptr.splits)
  have t: "cpuidle_state_table sample_probed = Some Nehalem_cstates" by code_simp
  have i: "3 \<in> set (online_cpus all_ok_kernel)" by code_simp
  obtain area' idxs where "intel_idle_cpuidle_devices s' = Live area'" "sorted_wrt (<) idxs"
      "active_rows (area' 3) = map (\<lambda>c. table_rows Nehalem_cstates ! c) idxs"
    using devices_init_depth_monotonic[OF r t i] by (elim exE conjE)
  then show ?thesis using r p a by auto
qed

text \<open>
  Claim C5 (as amended). Called with the per-core records installed (a live allocation),
  \<open>intel_idle_cpuidle_devices_uninit\<close> unregisters the record of every online core and
  frees the storage without error; when every registered core is an online core whose
  record carries its own id, as after a successful set-up, no core stays registered. It
  does not clear or check the pointer: a second call faults on the freed storage.
\<close>

theorem devices_uninit_once:
  assumes "intel_idle_cpuidle_devices s = Live area"
  shows "\<exists>s'. intel_idle_cpuidle_devices_uninit k s = Inr s'
       \<and> intel_idle_cpuidle_devices s' = Freed
       \<and> registered s' = registered s - (\<lambda>j. cpu (area j)) ` set (online_cpus k)
       \<and> ((\<forall>c\<in>registered s. c \<in> set (online_cpus k) \<and> cpu (area c) = c)
            \<longrightarrow> registered s' = {})
       \<and> (\<exists>f. intel_idle_cpuidle_devices_uninit k s' = Inl f)"
proof -
  obtain s' where u: "intel_idle_cpuidle_devices_uninit k s = Inr s'"
    and f: "intel_idle_cpuidle_devices s' = Freed"
    and r: "registered s' = registered s - (\<lambda>j. cpu (area j)) ` set (online_cpus k)"
    using uninit_live[OF assms, of k] by blast
  have "(\<forall>c\<in>registered s. c \<in> set (online_cpus k) \<and> cpu (area c) = c) \<longrightarrow> registered s' = {}"
    using r by force
  moreover have "\<exists>f. intel_idle_cpuidle_devices_uninit k s' = Inl f"
    using f by (simp add: intel_idle_cpuidle_devices_uninit_def)
  ultimately show ?thesis using u f r by blast
qed

theorem devices_uninit_once_witness:
  "registered sample_installed = {0, 1, 2, 3}
   \<and> (\<exists>s'. intel_idle_cpuidle_devices_uninit all_ok_kernel sample_installed = Inr s'
         \<and> intel_idle_cpuidle_devices s' = Freed \<and> registered s' = {}
         \<and> (\<exists>f. intel_idle_cpuidle_devices_uninit all_ok_kernel s' = Inl f))"
proof -
  have "(case intel_idle_cpuidle_devices sample_installed of
           Live area \<Rightarrow> registered sample_installed = {0, 1, 2, 3}
              \<and> list_all (\<lambda>c. cpu (area c) = c) [0, 1, 2, 3]
         | _ \<Rightarrow> False)"
    by code_simp
  then obtain area where p: "intel_idle_cpuidle_devices sample_installed = Live area"
    and r: "registered sample_installed = {0, 1, 2, 3}"
    and c: "cpu (area 0) = 0" "cpu (area 1) = 1" "cpu (area 2) = 2" "cpu (area 3) = 3"
    by (auto split: percpu_ptr.splits)
  have o: "online_cpus all_ok_kernel = [0, 1, 2, 3]" by code_simp
  have "\<forall>c\<in>registered sample_installed. c \<in> set (online_cpus all_ok_kernel) \<and> cpu (area c) = c"
    using r c o by auto
  then show ?thesis using devices_uninit_once [OF p, of all_ok_kernel] r by blast
qed

text \<open>
  Counterexample to C5 as stated: after the set-up of the sample machine, the first
  call succeeds and the second call faults on the freed storage; and with nothing
  installed (NULL pointer, cores online) a call faults as well.
\<close>

theorem devices_uninit_twice_faults:
  "\<not> isl (intel_idle_cpuidle_devices_uninit all_ok_kernel sample_installed)
   \<and> intel_idle_cpuidle_devices_uninit all_ok_kernel
        (projr (intel_idle_cpuidle_devices_uninit all_ok_kernel sample_installed))
       = Inl Percpu_use_after_free
   \<and> intel_idle_cpuidle_devices_uninit all_ok_kernel initial_globals = Inl Percpu_null_access"
proof -
  let ?first = "intel_idle_cpuidle_devices_uninit all_ok_kernel sample_installed"
  let ?second = "intel_idle_cpuidle_devices_uninit all_ok_kernel (projr ?first)"
  let ?bare = "intel_idle_cpuidle_devices_uninit all_ok_kernel initial_globals"
  have a: "\<not> isl ?first" by code_simp
  have b: "isl ?second" "projl ?second = Percpu_use_after_free" by code_simp+
  have c: "isl ?bare" "projl ?bare = Percpu_null_access" by code_simp+
  have "?second = Inl Percpu_use_after_free" using b sum.collapse(1) [of ?second] by simp
  moreover have "?bare = Inl Percpu_null_access" using c sum.collapse(1) [of ?bare] by simp
  ultimately show ?thesis using a by simp
qed

subsection \<open>The reliable-timer mask outside the probe\<close>

text \<open>\<open>lapic_timer_reliable_states\<close> is written by the probe only: the idle entry, the
  device set-up and the tear-down return it as they found it.\<close>

lemma cstate_loop_mask:
  "cstate_loop hw cs dev s = Inr (d, s')
   \<Longrightarrow> lapic_timer_reliable_states s' = lapic_timer_reliable_states s"
proof (induction cs arbitrary: dev s)
  case Nil
  then show ?case by simp
next
  case (Cons c rest)
  then show ?case
    by (auto simp add: Let_def emit_def split: if_splits option.splits)
qed

lemma unregister_loop_mask:
  "lapic_timer_reliable_states (unregister_loop area cs s) = lapic_timer_reliable_states s"
  by (induction cs arbitrary: s) (simp_all add: cpuidle_unregister_device_def emit_def)

lemma uninit_mask:
  "intel_idle_cpuidle_devices_uninit k s = Inr s'
   \<Longrightarrow> lapic_timer_reliable_states s' = lapic_timer_reliable_states s"
  by (auto simp add: intel_idle_cpuidle_devices_uninit_def emit_def unregister_loop_mask
      split: percpu_ptr.splits if_splits)

lemma cpu_loop_mask:
  "cpu_loop k hw cs s = Inr (st, s')
   \<Longrightarrow> lapic_timer_reliable_states s' = lapic_timer_reliable_states s"
proof (induction cs arbitrary: s)
  case Nil
  then show ?case by simp
next
  case (Cons i rest)
  from Cons.prems obtain area where p: "intel_idle_cpuidle_devices s = Live area"
    by (cases "intel_idle_cpuidle_devices s") simp_all
  from Cons.prems p obtain dev1 s1 where
    c: "cstate_loop hw [1..<MWAIT_MAX_NUM_CSTATES] ((area i)\<lparr>state_count := 1\<rparr>) s = Inr (dev1, s1)"
    by (cases "cstate_loop hw [1..<MWAIT_MAX_NUM_CSTATES] ((area i)\<lparr>state_count := 1\<rparr>) s") auto
  have m1: "lapic_timer_reliable_states s1 = lapic_timer_reliable_states s"
    using cstate_loop_mask[OF c] .
  show ?case
  proof (cases "register_device_fails k i")
    case True
    then show ?thesis using Cons.prems p c m1
      by (auto simp add: Let_def cpuidle_register_device_def emit_def
          split: sum.splits dest!: uninit_mask)
  next
    case False
    then show ?thesis using Cons.prems p c m1 Cons.IH
      by (auto simp add: Let_def cpuidle_register_device_def emit_def dest!: Cons.IH)
  qed
qed

lemma devices_init_mask:
  "intel_idle_cpuidle_devices_init k hw s = Inr (st, s')
   \<Longrightarrow> lapic_timer_reliable_states s' = lapic_timer_reliable_states s"
  by (auto simp add: intel_idle_cpuidle_devices_init_def Let_def emit_def
      split: if_splits dest!: cpu_loop_mask)

lemma intel_idle_mask:
  "intel_idle env st s = Inr (r, s')
   \<Longrightarrow> lapic_timer_reliable_states s' = lapic_timer_reliable_states s"
  by (auto simp add: intel_idle_def call_choose_substate_def choose_tunable_substate_def
      choose_zero_substate_def Let_def split: option.splits policy.splits sum.splits if_splits)

end
